theory Spec2Isabelle
  imports Main "HOL-Library.Multiset"
begin

section \<open>Python values the program handles\<close>

text \<open>
  A Python \<open>str\<close> is a sequence of Unicode code points, so it is modelled as a list of
  natural numbers (\<open>len\<close>, slicing and \<open>strip\<close> count code points). ASCII literals are
  written through \<open>asc\<close>; the other literals of the source are given by their code points.
\<close>

type_synonym ustr = "nat list"

definition asc :: "string \<Rightarrow> ustr" where
  "asc s = map of_char s"

text \<open>\<open>str(n)\<close> for an integer: decimal digits, with a minus sign below zero.\<close>

fun show_nat :: "nat \<Rightarrow> ustr" where
  "show_nat n = (if n < 10 then [48 + n] else show_nat (n div 10) @ [48 + n mod 10])"

declare show_nat.simps [simp del]

definition show_int :: "int \<Rightarrow> ustr" where
  "show_int i = (if i < 0 then 45 # show_nat (nat (- i)) else show_nat (nat i))"

text \<open>
  \<open>str.strip()\<close> removes the code points for which \<open>str.isspace\<close> holds from both ends.
\<close>

definition is_space :: "nat \<Rightarrow> bool" where
  "is_space c \<longleftrightarrow>
     (9 \<le> c \<and> c \<le> 13) \<or> (28 \<le> c \<and> c \<le> 32) \<or> c = 133 \<or> c = 160 \<or> c = 5760 \<or>
     (8192 \<le> c \<and> c \<le> 8202) \<or> c = 8232 \<or> c = 8233 \<or> c = 8239 \<or> c = 8287 \<or> c = 12288"

definition py_strip :: "ustr \<Rightarrow> ustr" where
  "py_strip s = rev (dropWhile is_space (rev (dropWhile is_space s)))"

text \<open>
  \<open>str.lower()\<close> follows the Unicode tables of the interpreter and is not defined here:
  the program's environment supplies it (see \<open>str_lower\<close> below). What follows is only
  the lower-casing that the sample environments use. On a string whose code points all
  lie below U+0080 or in U+0400 to U+045F it gives what \<open>str.lower()\<close> gives; on other
  strings it need not (it leaves U+212A, the Kelvin sign, alone, and \<open>str.lower()\<close>
  does not).
\<close>

definition sample_lower_cp :: "nat \<Rightarrow> nat" where
  "sample_lower_cp c =
     (if 65 \<le> c \<and> c \<le> 90 then c + 32
      else if 1040 \<le> c \<and> c \<le> 1071 then c + 32
      else if 1024 \<le> c \<and> c \<le> 1039 then c + 80
      else c)"

definition sample_lower :: "ustr \<Rightarrow> ustr" where
  "sample_lower s = map sample_lower_cp s"

text \<open>\<open>sep.join(parts)\<close> on strings.\<close>

fun join :: "ustr \<Rightarrow> ustr list \<Rightarrow> ustr" where
  "join sep [] = []"
| "join sep [x] = x"
| "join sep (x # y # ys) = x @ sep @ join sep (y # ys)"

text \<open>
  The values \<open>json.loads\<close> produces, without floats. A \<open>dict\<close> keeps its insertion
  order, so it is an association list.
\<close>

datatype jv =
    JNull
  | JBool bool
  | JInt int
  | JStr ustr
  | JList "jv list"
  | JObj "(ustr \<times> jv) list"

type_synonym params = "(ustr \<times> jv) list"

text \<open>\<open>params.get(key, default)\<close>.\<close>

definition dict_get :: "params \<Rightarrow> ustr \<Rightarrow> jv \<Rightarrow> jv" where
  "dict_get ps k d = (case map_of ps k of Some v \<Rightarrow> v | None \<Rightarrow> d)"

text \<open>Truth value of a value, as \<open>if not x\<close> tests it.\<close>

fun truthy :: "jv \<Rightarrow> bool" where
  "truthy JNull = False"
| "truthy (JBool b) = b"
| "truthy (JInt i) = (i \<noteq> 0)"
| "truthy (JStr s) = (s \<noteq> [])"
| "truthy (JList xs) = (xs \<noteq> [])"
| "truthy (JObj kvs) = (kvs \<noteq> [])"

text \<open>
  An exception that is an instance of \<open>Exception\<close>: its class name and the text
  \<open>str(e)\<close> gives. \<open>KeyboardInterrupt\<close> and \<open>SystemExit\<close>, which \<open>except Exception\<close>
  lets through, are raised by the interpreter and not by the program, and are not modelled.
\<close>

datatype pyexc = PyExc (exc_class: string) (exc_text: ustr)

section \<open>The host machine\<close>

text \<open>
  Every call that leaves the program (\<open>subprocess\<close>, \<open>pyautogui\<close>, \<open>os.startfile\<close>,
  \<open>time.sleep\<close>, \<open>mss\<close>) is an \<open>os_call\<close>. The world is the list of calls made so far,
  oldest first. What a call answers is not the program's to decide: the environment
  gives, for the calls made so far and the call at hand, either the completed process
  (return code and standard error) or the exception raised.
\<close>

datatype os_call =
    Run "ustr list"
  | Popen jv
  | Press ustr
  | Hotkey "jv list"
  | Clip ustr
  | Sleep
  | Startfile jv
  | Grab

datatype os_result = Completed int ustr | Failed pyexc

type_synonym world = "os_call list"

text \<open>
  The environment also holds the parts of the interpreter that are not modelled:
  \<open>repr\<close> of a list or a dict, the text of the exceptions the interpreter itself
  raises (named by the operation that failed), and \<open>str.lower()\<close>.
\<close>

record env =
  os_reply :: "world \<Rightarrow> os_call \<Rightarrow> os_result"
  py_repr :: "jv \<Rightarrow> ustr"
  py_errmsg :: "string \<Rightarrow> jv \<Rightarrow> ustr"
  str_lower :: "ustr \<Rightarrow> ustr"

definition os_do :: "env \<Rightarrow> os_call \<Rightarrow> world \<Rightarrow> os_result \<times> world" where
  "os_do e c w = (os_reply e w c, w @ [c])"

text \<open>\<open>str(v)\<close>, as an f-string formats a value.\<close>

fun py_str :: "env \<Rightarrow> jv \<Rightarrow> ustr" where
  "py_str e JNull = asc ''None''"
| "py_str e (JBool b) = (if b then asc ''True'' else asc ''False'')"
| "py_str e (JInt i) = show_int i"
| "py_str e (JStr s) = s"
| "py_str e v = py_repr e v"

type_synonym result = "pyexc + ustr"

section \<open>Command handlers\<close>

text \<open>The string literals of \<open>commands.py\<close>, as code points.\<close>

definition msg_shutdown_pre :: ustr where
  "msg_shutdown_pre =
     [9211, 32, 1042, 1099, 1082, 1083, 1102, 1095, 1077, 1085, 1080, 1077, 32, 1095,
     1077, 1088, 1077, 1079, 32]"

definition msg_shutdown_post :: ustr where
  "msg_shutdown_post =
     [32, 1089, 1077, 1082, 46]"

definition msg_restart :: ustr where
  "msg_restart =
     [128260, 32, 1055, 1077, 1088, 1077, 1079, 1072, 1075, 1088, 1091, 1079, 1082,
     1072, 32, 1095, 1077, 1088, 1077, 1079, 32, 53, 32, 1089, 1077, 1082, 46]"

definition msg_cancel_shutdown :: ustr where
  "msg_cancel_shutdown =
     [128683, 32, 1042, 1099, 1082, 1083, 1102, 1095, 1077, 1085, 1080, 1077, 47, 1087,
     1077, 1088, 1077, 1079, 1072, 1075, 1088, 1091, 1079, 1082, 1072, 32, 1086, 1090,
     1084, 1077, 1085, 1077, 1085, 1099, 46]"

definition msg_sleep :: ustr where
  "msg_sleep =
     [128564, 32, 1055, 1050, 32, 1091, 1093, 1086, 1076, 1080, 1090, 32, 1074, 32,
     1089, 1086, 1085, 46]"

definition msg_lock :: ustr where
  "msg_lock =
     [128274, 32, 1069, 1082, 1088, 1072, 1085, 32, 1079, 1072, 1073, 1083, 1086, 1082,
     1080, 1088, 1086, 1074, 1072, 1085, 46]"

definition msg_hibernate :: ustr where
  "msg_hibernate =
     [10052, 65039, 32, 1043, 1080, 1073, 1077, 1088, 1085, 1072, 1094, 1080, 1103, 46]"

definition msg_no_app_name :: ustr where
  "msg_no_app_name =
     [10060, 32, 1053, 1077, 32, 1091, 1082, 1072, 1079, 1072, 1085, 1086, 32, 1080,
     1084, 1103, 32, 1087, 1088, 1080, 1083, 1086, 1078, 1077, 1085, 1080, 1103, 46]"

definition msg_opening :: ustr where
  "msg_opening =
     [128640, 32, 1054, 1090, 1082, 1088, 1099, 1074, 1072, 1102, 32]"

definition msg_open_failed :: ustr where
  "msg_open_failed =
     [10060, 32, 1053, 1077, 32, 1091, 1076, 1072, 1083, 1086, 1089, 1100, 32, 1086,
     1090, 1082, 1088, 1099, 1090, 1100, 32]"

definition msg_process :: ustr where
  "msg_process =
     [128128, 32, 1055, 1088, 1086, 1094, 1077, 1089, 1089, 32]"

definition msg_terminated :: ustr where
  "msg_terminated =
     [32, 1079, 1072, 1074, 1077, 1088, 1096, 1105, 1085, 46]"

definition msg_kill_failed :: ustr where
  "msg_kill_failed =
     [10060, 32, 1053, 1077, 32, 1091, 1076, 1072, 1083, 1086, 1089, 1100, 32, 1079,
     1072, 1074, 1077, 1088, 1096, 1080, 1090, 1100, 32]"

definition msg_volume_up :: ustr where
  "msg_volume_up =
     [128266, 32, 1043, 1088, 1086, 1084, 1082, 1086, 1089, 1090, 1100, 32, 43]"

definition msg_volume_down :: ustr where
  "msg_volume_down =
     [128265, 32, 1043, 1088, 1086, 1084, 1082, 1086, 1089, 1090, 1100, 32, 45]"

definition msg_volume_mute :: ustr where
  "msg_volume_mute =
     [128263, 32, 1047, 1074, 1091, 1082, 32, 1087, 1077, 1088, 1077, 1082, 1083, 1102,
     1095, 1105, 1085, 32, 40, 109, 117, 116, 101, 47, 117, 110, 109, 117, 116, 101, 41,
     46]"

definition msg_play_pause :: ustr where
  "msg_play_pause =
     [9199, 32, 80, 108, 97, 121, 47, 80, 97, 117, 115, 101, 46]"

definition msg_media_next :: ustr where
  "msg_media_next =
     [9197, 32, 1057, 1083, 1077, 1076, 1091, 1102, 1097, 1080, 1081, 32, 1090, 1088,
     1077, 1082, 46]"

definition msg_media_prev :: ustr where
  "msg_media_prev =
     [9198, 32, 1055, 1088, 1077, 1076, 1099, 1076, 1091, 1097, 1080, 1081, 32, 1090,
     1088, 1077, 1082, 46]"

definition msg_no_text :: ustr where
  "msg_no_text =
     [10060, 32, 1053, 1077, 32, 1091, 1082, 1072, 1079, 1072, 1085, 32, 1090, 1077,
     1082, 1089, 1090, 32, 1076, 1083, 1103, 32, 1074, 1074, 1086, 1076, 1072, 46]"

definition msg_text_typed :: ustr where
  "msg_text_typed =
     [9000, 65039, 32, 1058, 1077, 1082, 1089, 1090, 32, 1074, 1074, 1077, 1076, 1105,
     1085, 58, 32]"

definition msg_type_failed :: ustr where
  "msg_type_failed =
     [10060, 32, 1054, 1096, 1080, 1073, 1082, 1072, 32, 1074, 1074, 1086, 1076, 1072,
     32, 1090, 1077, 1082, 1089, 1090, 1072, 58, 32]"

definition msg_no_url :: ustr where
  "msg_no_url =
     [10060, 32, 1053, 1077, 32, 1091, 1082, 1072, 1079, 1072, 1085, 32, 85, 82, 76, 46]"

definition msg_opening_url :: ustr where
  "msg_opening_url =
     [127760, 32, 1054, 1090, 1082, 1088, 1099, 1074, 1072, 1102, 32]"

definition msg_url_failed :: ustr where
  "msg_url_failed =
     [10060, 32, 1053, 1077, 32, 1091, 1076, 1072, 1083, 1086, 1089, 1100, 32, 1086,
     1090, 1082, 1088, 1099, 1090, 1100, 32, 85, 82, 76, 58, 32]"

definition msg_no_keys :: ustr where
  "msg_no_keys =
     [10060, 32, 1053, 1077, 32, 1091, 1082, 1072, 1079, 1072, 1085, 1099, 32, 1082,
     1083, 1072, 1074, 1080, 1096, 1080, 46]"

definition msg_pressed :: ustr where
  "msg_pressed =
     [9000, 65039, 32, 1053, 1072, 1078, 1072, 1090, 1086, 58, 32]"

definition msg_error :: ustr where
  "msg_error =
     [10060, 32, 1054, 1096, 1080, 1073, 1082, 1072, 58, 32]"

definition msg_unknown_command :: ustr where
  "msg_unknown_command =
     [10060, 32, 1053, 1077, 1080, 1079, 1074, 1077, 1089, 1090, 1085, 1072, 1103, 32,
     1082, 1086, 1084, 1072, 1085, 1076, 1072, 58, 32]"

definition msg_exec_error :: ustr where
  "msg_exec_error =
     [10060, 32, 1054, 1096, 1080, 1073, 1082, 1072, 32, 1074, 1099, 1087, 1086, 1083,
     1085, 1077, 1085, 1080, 1103, 32]"

definition msg_unknown_macro :: ustr where
  "msg_unknown_macro =
     [10060, 32, 1053, 1077, 1080, 1079, 1074, 1077, 1089, 1090, 1085, 1099, 1081, 32,
     1084, 1072, 1082, 1088, 1086, 1089, 58, 32]"

definition mark_ok :: ustr where
  "mark_ok =
     [9989, 32]"

definition mark_fail :: ustr where
  "mark_fail =
     [10060, 32]"

definition bullet_indent :: ustr where
  "bullet_indent =
     [32, 32, 8226, 32]"

definition msg_macro_pre :: ustr where
  "msg_macro_pre =
     [128279, 32, 1052, 1072, 1082, 1088, 1086, 1089, 32, 171]"

definition msg_macro_post :: ustr where
  "msg_macro_post =
     [187, 58, 10]"

definition msg_no_macro :: ustr where
  "msg_no_macro =
     [10060, 32, 1053, 1077, 32, 1091, 1082, 1072, 1079, 1072, 1085, 32, 1084, 1072,
     1082, 1088, 1086, 1089, 46]"

definition msg_macros_header :: ustr where
  "msg_macros_header =
     [128203, 32, 1044, 1086, 1089, 1090, 1091, 1087, 1085, 1099, 1077, 32, 1084, 1072,
     1082, 1088, 1086, 1089, 1099, 58, 10]"

definition bullet :: ustr where
  "bullet =
     [8226, 32]"

definition msg_dash :: ustr where
  "msg_dash =
     [41, 32, 8212, 32]"

definition msg_steps :: ustr where
  "msg_steps =
     [32, 1096, 1072, 1075, 1086, 1074]"

definition label_shutdown :: ustr where
  "label_shutdown =
     [1042, 1099, 1082, 1083, 1102, 1095, 1077, 1085, 1080, 1077, 32, 1055, 1050]"

definition label_restart :: ustr where
  "label_restart =
     [1055, 1077, 1088, 1077, 1079, 1072, 1075, 1088, 1091, 1079, 1082, 1072]"

definition label_cancel_shutdown :: ustr where
  "label_cancel_shutdown =
     [1054, 1090, 1084, 1077, 1085, 1072, 32, 1074, 1099, 1082, 1083, 1102, 1095, 1077,
     1085, 1080, 1103]"

definition label_sleep :: ustr where
  "label_sleep =
     [1057, 1086, 1085]"

definition label_lock :: ustr where
  "label_lock =
     [1041, 1083, 1086, 1082, 1080, 1088, 1086, 1074, 1082, 1072]"

definition label_hibernate :: ustr where
  "label_hibernate =
     [1043, 1080, 1073, 1077, 1088, 1085, 1072, 1094, 1080, 1103]"

definition label_open_app :: ustr where
  "label_open_app =
     [1054, 1090, 1082, 1088, 1099, 1090, 1080, 1077, 32, 1087, 1088, 1080, 1083, 1086,
     1078, 1077, 1085, 1080, 1103]"

definition label_close_app :: ustr where
  "label_close_app =
     [1047, 1072, 1082, 1088, 1099, 1090, 1080, 1077, 32, 1087, 1088, 1080, 1083, 1086,
     1078, 1077, 1085, 1080, 1103]"

definition label_volume_up :: ustr where
  "label_volume_up =
     [1043, 1088, 1086, 1084, 1082, 1086, 1089, 1090, 1100, 32, 43]"

definition label_volume_down :: ustr where
  "label_volume_down =
     [1043, 1088, 1086, 1084, 1082, 1086, 1089, 1090, 1100, 32, 45]"

definition label_media_next :: ustr where
  "label_media_next =
     [1057, 1083, 1077, 1076, 1091, 1102, 1097, 1080, 1081, 32, 1090, 1088, 1077, 1082]"

definition label_media_prev :: ustr where
  "label_media_prev =
     [1055, 1088, 1077, 1076, 1099, 1076, 1091, 1097, 1080, 1081, 32, 1090, 1088, 1077,
     1082]"

definition label_screenshot :: ustr where
  "label_screenshot =
     [1057, 1082, 1088, 1080, 1085, 1096, 1086, 1090]"

definition label_type_text :: ustr where
  "label_type_text =
     [1042, 1074, 1086, 1076, 32, 1090, 1077, 1082, 1089, 1090, 1072]"

definition label_open_url :: ustr where
  "label_open_url =
     [1054, 1090, 1082, 1088, 1099, 1090, 1080, 1077, 32, 85, 82, 76]"

definition label_hotkey :: ustr where
  "label_hotkey =
     [1043, 1086, 1088, 1103, 1095, 1080, 1077, 32, 1082, 1083, 1072, 1074, 1080, 1096,
     1080]"

definition label_run_macro :: ustr where
  "label_run_macro =
     [1047, 1072, 1087, 1091, 1089, 1082, 32, 1084, 1072, 1082, 1088, 1086, 1089, 1072]"

definition label_list_macros :: ustr where
  "label_list_macros =
     [1057, 1087, 1080, 1089, 1086, 1082, 32, 1084, 1072, 1082, 1088, 1086, 1089, 1086,
     1074]"

definition label_start_work :: ustr where
  "label_start_work =
     [1053, 1072, 1095, 1072, 1090, 1100, 32, 1088, 1072, 1073, 1086, 1095, 1080, 1081,
     32, 1076, 1077, 1085, 1100]"

definition label_end_work :: ustr where
  "label_end_work =
     [1047, 1072, 1082, 1086, 1085, 1095, 1080, 1090, 1100, 32, 1088, 1072, 1073, 1086,
     1095, 1080, 1081, 32, 1076, 1077, 1085, 1100]"

definition label_music_mode :: ustr where
  "label_music_mode =
     [1056, 1077, 1078, 1080, 1084, 32, 1084, 1091, 1079, 1099, 1082, 1080]"

definition label_focus_mode :: ustr where
  "label_focus_mode =
     [1056, 1077, 1078, 1080, 1084, 32, 1092, 1086, 1082, 1091, 1089, 1072]"

definition label_presentation :: ustr where
  "label_presentation =
     [1056, 1077, 1078, 1080, 1084, 32, 1087, 1088, 1077, 1079, 1077, 1085, 1090, 1072,
     1094, 1080, 1080]"


text \<open>
  A handler takes the parameters of the intent and returns the outcome text, or raises.
  It runs against the host machine, so it also takes the environment and the world and
  returns the world it leaves.
\<close>

type_synonym handler = "env \<Rightarrow> params \<Rightarrow> world \<Rightarrow> result \<times> world"

text \<open>A call whose exception is not caught where it is made: the exception leaves the handler.\<close>

definition os_then ::
  "env \<Rightarrow> os_call \<Rightarrow> world \<Rightarrow> (int \<Rightarrow> ustr \<Rightarrow> world \<Rightarrow> result \<times> world) \<Rightarrow> result \<times> world" where
  "os_then e c w k =
     (case os_do e c w of
        (Failed x, w') \<Rightarrow> (Inl x, w')
      | (Completed rc err, w') \<Rightarrow> k rc err w')"

definition cmd_shutdown :: handler where
  "cmd_shutdown e ps w =
     (let delay = dict_get ps (asc ''delay_seconds'') (JInt 60) in
      os_then e (Run [asc ''shutdown'', asc ''/s'', asc ''/t'', py_str e delay]) w
        (\<lambda>rc err w'. (Inr (msg_shutdown_pre @ py_str e delay @ msg_shutdown_post), w')))"

definition cmd_restart :: handler where
  "cmd_restart e ps w =
     os_then e (Run [asc ''shutdown'', asc ''/r'', asc ''/t'', asc ''5'']) w
       (\<lambda>rc err w'. (Inr msg_restart, w'))"

definition cmd_cancel_shutdown :: handler where
  "cmd_cancel_shutdown e ps w =
     os_then e (Run [asc ''shutdown'', asc ''/a'']) w
       (\<lambda>rc err w'. (Inr msg_cancel_shutdown, w'))"

definition cmd_sleep :: handler where
  "cmd_sleep e ps w =
     os_then e (Run [asc ''rundll32.exe'', asc ''powrprof.dll,SetSuspendState'',
                     asc ''0'', asc ''1'', asc ''0'']) w
       (\<lambda>rc err w'. (Inr msg_sleep, w'))"

definition cmd_lock :: handler where
  "cmd_lock e ps w =
     os_then e (Run [asc ''rundll32.exe'', asc ''user32.dll,LockWorkStation'']) w
       (\<lambda>rc err w'. (Inr msg_lock, w'))"

definition cmd_hibernate :: handler where
  "cmd_hibernate e ps w =
     os_then e (Run [asc ''shutdown'', asc ''/h'']) w
       (\<lambda>rc err w'. (Inr msg_hibernate, w'))"

definition cmd_open_app :: handler where
  "cmd_open_app e ps w =
     (let name = dict_get ps (asc ''name'') (JStr []) in
      if \<not> truthy name then (Inr msg_no_app_name, w)
      else (case os_do e (Popen name) w of
              (Completed rc err, w') \<Rightarrow> (Inr (msg_opening @ py_str e name @ asc ''.''), w')
            | (Failed x, w') \<Rightarrow>
                (Inr (msg_open_failed @ py_str e name @ asc '': '' @ exc_text x), w')))"

text \<open>\<open>s.endswith(t)\<close>.\<close>

definition ends_with :: "ustr \<Rightarrow> ustr \<Rightarrow> bool" where
  "ends_with s t \<longleftrightarrow> length t \<le> length s \<and> drop (length s - length t) s = t"

text \<open>
  \<open>name.endswith\<close> exists on a string only: any other value that passed the emptiness
  test raises \<open>AttributeError\<close>, outside any \<open>try\<close> of the handler.
\<close>

definition cmd_close_app :: handler where
  "cmd_close_app e ps w =
     (let name = dict_get ps (asc ''name'') (JStr []) in
      if \<not> truthy name then (Inr msg_no_app_name, w)
      else (case name of
              JStr s \<Rightarrow>
                (let proc_name = (if ends_with s (asc ''.exe'') then s else s @ asc ''.exe'') in
                 os_then e (Run [asc ''taskkill'', asc ''/IM'', proc_name, asc ''/F'']) w
                   (\<lambda>rc err w'.
                      if rc = 0 then (Inr (msg_process @ proc_name @ msg_terminated), w')
                      else (Inr (msg_kill_failed @ proc_name @ asc '': '' @ py_strip err), w')))
            | _ \<Rightarrow> (Inl (PyExc ''AttributeError'' (py_errmsg e ''endswith'' name)), w)))"

text \<open>
  \<open>x // 2\<close>: floor division on an integer (a \<open>bool\<close> counts as 0 or 1), \<open>TypeError\<close> on
  anything else.
\<close>

fun floordiv2 :: "env \<Rightarrow> jv \<Rightarrow> pyexc + int" where
  "floordiv2 e (JInt i) = Inr (i div 2)"
| "floordiv2 e (JBool b) = Inr ((if b then 1 else 0) div 2)"
| "floordiv2 e v = Inl (PyExc ''TypeError'' (py_errmsg e ''floordiv'' v))"

text \<open>\<open>for _ in range(n): pyautogui.press(key)\<close>; a press that raises ends the loop.\<close>

fun press_n :: "env \<Rightarrow> ustr \<Rightarrow> nat \<Rightarrow> world \<Rightarrow> pyexc option \<times> world" where
  "press_n e k 0 w = (None, w)"
| "press_n e k (Suc n) w =
     (case os_do e (Press k) w of
        (Failed x, w') \<Rightarrow> (Some x, w')
      | (Completed rc err, w') \<Rightarrow> press_n e k n w')"

definition cmd_volume_up :: handler where
  "cmd_volume_up e ps w =
     (case floordiv2 e (dict_get ps (asc ''percent'') (JInt 10)) of
        Inl x \<Rightarrow> (Inl x, w)
      | Inr q \<Rightarrow>
          (let steps = max 1 q in
           case press_n e (asc ''volumeup'') (nat steps) w of
             (Some x, w') \<Rightarrow> (Inl x, w')
           | (None, w') \<Rightarrow> (Inr (msg_volume_up @ show_int (steps * 2) @ asc ''%.''), w')))"

definition cmd_volume_down :: handler where
  "cmd_volume_down e ps w =
     (case floordiv2 e (dict_get ps (asc ''percent'') (JInt 10)) of
        Inl x \<Rightarrow> (Inl x, w)
      | Inr q \<Rightarrow>
          (let steps = max 1 q in
           case press_n e (asc ''volumedown'') (nat steps) w of
             (Some x, w') \<Rightarrow> (Inl x, w')
           | (None, w') \<Rightarrow> (Inr (msg_volume_down @ show_int (steps * 2) @ asc ''%.''), w')))"

definition cmd_volume_mute :: handler where
  "cmd_volume_mute e ps w =
     os_then e (Press (asc ''volumemute'')) w (\<lambda>rc err w'. (Inr msg_volume_mute, w'))"

definition cmd_media_play_pause :: handler where
  "cmd_media_play_pause e ps w =
     os_then e (Press (asc ''playpause'')) w (\<lambda>rc err w'. (Inr msg_play_pause, w'))"

definition cmd_media_next :: handler where
  "cmd_media_next e ps w =
     os_then e (Press (asc ''nexttrack'')) w (\<lambda>rc err w'. (Inr msg_media_next, w'))"

definition cmd_media_prev :: handler where
  "cmd_media_prev e ps w =
     os_then e (Press (asc ''prevtrack'')) w (\<lambda>rc err w'. (Inr msg_media_prev, w'))"

definition cmd_screenshot :: handler where
  "cmd_screenshot e ps w = (Inr (asc ''SCREENSHOT_REQUESTED''), w)"

text \<open>
  \<open>text.encode("utf-16-le")\<close> exists on a string only and refuses lone surrogates;
  \<open>check=True\<close> turns a non-zero return code of \<open>clip\<close> into an exception. The whole
  body is inside the handler's \<open>try\<close>.
\<close>

definition encode_utf16 :: "env \<Rightarrow> jv \<Rightarrow> pyexc + ustr" where
  "encode_utf16 e v =
     (case v of
        JStr s \<Rightarrow>
          (if list_ex (\<lambda>c. 55296 \<le> c \<and> c \<le> 57343) s
           then Inl (PyExc ''UnicodeEncodeError'' (py_errmsg e ''encode'' v))
           else Inr s)
      | _ \<Rightarrow> Inl (PyExc ''AttributeError'' (py_errmsg e ''encode'' v)))"

definition type_text_body :: "env \<Rightarrow> jv \<Rightarrow> world \<Rightarrow> result \<times> world" where
  "type_text_body e text w =
     (case encode_utf16 e text of
        Inl x \<Rightarrow> (Inl x, w)
      | Inr s \<Rightarrow>
          os_then e (Clip s) w (\<lambda>rc err w1.
            if rc \<noteq> 0 then (Inl (PyExc ''CalledProcessError'' (py_errmsg e ''check'' (JInt rc))), w1)
            else os_then e Sleep w1 (\<lambda>rc2 err2 w2.
              os_then e (Hotkey [JStr (asc ''ctrl''), JStr (asc ''v'')]) w2 (\<lambda>rc3 err3 w3.
                (Inr (msg_text_typed @ take 50 s @ (if length s > 50 then asc ''...'' else [])),
                 w3)))))"

definition cmd_type_text :: handler where
  "cmd_type_text e ps w =
     (let text = dict_get ps (asc ''text'') (JStr []) in
      if \<not> truthy text then (Inr msg_no_text, w)
      else (case type_text_body e text w of
              (Inr out, w') \<Rightarrow> (Inr out, w')
            | (Inl x, w') \<Rightarrow> (Inr (msg_type_failed @ exc_text x), w')))"

definition cmd_open_url :: handler where
  "cmd_open_url e ps w =
     (let url = dict_get ps (asc ''url'') (JStr []) in
      if \<not> truthy url then (Inr msg_no_url, w)
      else (case os_do e (Startfile url) w of
              (Completed rc err, w') \<Rightarrow> (Inr (msg_opening_url @ py_str e url), w')
            | (Failed x, w') \<Rightarrow> (Inr (msg_url_failed @ exc_text x), w')))"

text \<open>
  \<open>*keys\<close> iterates the value: the items of a list, the characters of a string, the
  keys of a dict; nothing else is iterable. \<open>' + '.join(keys)\<close> wants strings only.
\<close>

fun py_iter :: "jv \<Rightarrow> jv list option" where
  "py_iter (JList xs) = Some xs"
| "py_iter (JStr s) = Some (map (\<lambda>c. JStr [c]) s)"
| "py_iter (JObj kvs) = Some (map (\<lambda>kv. JStr (fst kv)) kvs)"
| "py_iter v = None"

fun str_items :: "jv list \<Rightarrow> ustr list option" where
  "str_items [] = Some []"
| "str_items (JStr s # vs) = (case str_items vs of None \<Rightarrow> None | Some ss \<Rightarrow> Some (s # ss))"
| "str_items (v # vs) = None"

definition hotkey_body :: "env \<Rightarrow> jv \<Rightarrow> world \<Rightarrow> result \<times> world" where
  "hotkey_body e keys w =
     (case py_iter keys of
        None \<Rightarrow> (Inl (PyExc ''TypeError'' (py_errmsg e ''iter'' keys)), w)
      | Some args \<Rightarrow>
          os_then e (Hotkey args) w (\<lambda>rc err w'.
            case str_items args of
              None \<Rightarrow> (Inl (PyExc ''TypeError'' (py_errmsg e ''join'' keys)), w')
            | Some ss \<Rightarrow> (Inr (msg_pressed @ join (asc '' + '') ss), w')))"

definition cmd_hotkey :: handler where
  "cmd_hotkey e ps w =
     (let keys = dict_get ps (asc ''keys'') (JList []) in
      if \<not> truthy keys then (Inr msg_no_keys, w)
      else (case hotkey_body e keys w of
              (Inr out, w') \<Rightarrow> (Inr out, w')
            | (Inl x, w') \<Rightarrow> (Inr (msg_error @ exc_text x), w')))"

section \<open>Registries, dispatch and macros\<close>

text \<open>
  An intent descriptor: the intent name and, when the key is there, the parameters
  (\<open>.get("params", {})\<close> reads a missing key as the empty dict). A macro step has the
  same shape.
\<close>

record intent_data =
  intent_of :: ustr
  params_of :: "params option"

definition get_params :: "intent_data \<Rightarrow> params" where
  "get_params d = (case params_of d of None \<Rightarrow> [] | Some ps \<Rightarrow> ps)"

record entry =
  entry_handler :: handler
  entry_label :: ustr

record macro =
  macro_label :: ustr
  macro_steps :: "intent_data list"

text \<open>Both registries are dicts written in a fixed order: association lists.\<close>

type_synonym command_registry = "(ustr \<times> entry) list"
type_synonym macro_registry = "(ustr \<times> macro) list"

definition DANGEROUS_INTENTS :: "ustr set" where
  "DANGEROUS_INTENTS = {asc ''shutdown'', asc ''restart'', asc ''hibernate''}"

definition MACRO_REGISTRY :: macro_registry where
  "MACRO_REGISTRY =
     [(asc ''start_work'', \<lparr>macro_label = label_start_work, macro_steps =
         [\<lparr>intent_of = asc ''open_app'', params_of = Some [(asc ''name'', JStr (asc ''telegram''))]\<rparr>,
          \<lparr>intent_of = asc ''open_url'',
           params_of = Some [(asc ''url'', JStr (asc ''https://mail.google.com''))]\<rparr>,
          \<lparr>intent_of = asc ''open_app'', params_of = Some [(asc ''name'', JStr (asc ''code''))]\<rparr>]\<rparr>),
      (asc ''end_work'', \<lparr>macro_label = label_end_work, macro_steps =
         [\<lparr>intent_of = asc ''close_app'', params_of = Some [(asc ''name'', JStr (asc ''code''))]\<rparr>,
          \<lparr>intent_of = asc ''lock'', params_of = Some []\<rparr>]\<rparr>),
      (asc ''music_mode'', \<lparr>macro_label = label_music_mode, macro_steps =
         [\<lparr>intent_of = asc ''open_url'',
           params_of = Some [(asc ''url'', JStr (asc ''https://music.youtube.com''))]\<rparr>,
          \<lparr>intent_of = asc ''volume_up'', params_of = Some [(asc ''percent'', JInt 50)]\<rparr>]\<rparr>),
      (asc ''focus_mode'', \<lparr>macro_label = label_focus_mode, macro_steps =
         [\<lparr>intent_of = asc ''volume_mute'', params_of = Some []\<rparr>,
          \<lparr>intent_of = asc ''close_app'',
           params_of = Some [(asc ''name'', JStr (asc ''telegram''))]\<rparr>]\<rparr>),
      (asc ''presentation'', \<lparr>macro_label = label_presentation, macro_steps =
         [\<lparr>intent_of = asc ''volume_up'', params_of = Some [(asc ''percent'', JInt 70)]\<rparr>,
          \<lparr>intent_of = asc ''hotkey'',
           params_of = Some [(asc ''keys'', JList [JStr (asc ''win''), JStr (asc ''p'')])]\<rparr>]\<rparr>)]"

text \<open>
  \<open>execute_command\<close> reads the global \<open>COMMAND_REGISTRY\<close>; here the registry is its first
  argument. The \<open>try\<close> around the handler turns an exception into a failure message;
  the result type still has room for an exception, so that "nothing is raised" is a
  theorem about this function and not a matter of its type.
\<close>

definition execute_command :: "command_registry \<Rightarrow> env \<Rightarrow> ustr \<Rightarrow> params \<Rightarrow> world \<Rightarrow> result \<times> world" where
  "execute_command reg e i ps w =
     (case map_of reg i of
        None \<Rightarrow> (Inr (msg_unknown_command @ i), w)
      | Some ent \<Rightarrow>
          (case entry_handler ent e ps w of
             (Inr out, w') \<Rightarrow> (Inr out, w')
           | (Inl x, w') \<Rightarrow> (Inr (msg_exec_error @ i @ asc '': '' @ exc_text x), w')))"

text \<open>
  The loop of \<open>execute_macro\<close>: \<open>results\<close> grows by one line per step, in step order.
  The \<open>except\<close> branch of the loop is the \<open>Inl\<close> case.
\<close>

fun macro_loop ::
  "command_registry \<Rightarrow> env \<Rightarrow> intent_data list \<Rightarrow> ustr list \<Rightarrow> world \<Rightarrow> ustr list \<times> world" where
  "macro_loop reg e [] results w = (results, w)"
| "macro_loop reg e (step # rest) results w =
     (case execute_command reg e (intent_of step) (get_params step) w of
        (Inr res, w') \<Rightarrow> macro_loop reg e rest (results @ [mark_ok @ res]) w'
      | (Inl x, w') \<Rightarrow>
          macro_loop reg e rest
            (results @ [mark_fail @ intent_of step @ asc '': '' @ exc_text x]) w')"

definition steps_text :: "ustr list \<Rightarrow> ustr" where
  "steps_text results = join [10] (map (\<lambda>r. bullet_indent @ r) results)"

definition execute_macro ::
  "macro_registry \<Rightarrow> command_registry \<Rightarrow> env \<Rightarrow> ustr \<Rightarrow> world \<Rightarrow> result \<times> world" where
  "execute_macro mreg reg e macro_name w =
     (case map_of mreg macro_name of
        None \<Rightarrow> (Inr (msg_unknown_macro @ macro_name), w)
      | Some m \<Rightarrow>
          (case macro_loop reg e (macro_steps m) [] w of
             (results, w') \<Rightarrow>
               (Inr (msg_macro_pre @ macro_label m @ msg_macro_post @ steps_text results), w')))"

text \<open>
  \<open>MACRO_REGISTRY.get(macro_name)\<close> finds a string key only; a number finds nothing and
  a list or dict cannot be hashed.
\<close>

definition cmd_run_macro :: "macro_registry \<Rightarrow> command_registry \<Rightarrow> handler" where
  "cmd_run_macro mreg reg e ps w =
     (let macro_name = dict_get ps (asc ''macro'') (JStr []) in
      if \<not> truthy macro_name then (Inr msg_no_macro, w)
      else (case macro_name of
              JStr s \<Rightarrow> execute_macro mreg reg e s w
            | JList xs \<Rightarrow> (Inl (PyExc ''TypeError'' (py_errmsg e ''hash'' macro_name)), w)
            | JObj kvs \<Rightarrow> (Inl (PyExc ''TypeError'' (py_errmsg e ''hash'' macro_name)), w)
            | _ \<Rightarrow> (Inr (msg_unknown_macro @ py_str e macro_name), w)))"

definition cmd_list_macros :: "macro_registry \<Rightarrow> handler" where
  "cmd_list_macros mreg e ps w =
     (Inr (join [10]
        (msg_macros_header #
         map (\<lambda>(name, info).
                bullet @ macro_label info @ asc '' ('' @ name @ msg_dash @
                show_int (int (length (macro_steps info))) @ msg_steps) mreg)), w)"

text \<open>
  \<open>COMMAND_REGISTRY\<close> holds \<open>cmd_run_macro\<close>, which runs \<open>execute_macro\<close>, which
  dispatches through \<open>COMMAND_REGISTRY\<close> again. The interpreter bounds this nesting by
  its recursion limit and raises \<open>RecursionError\<close>, an \<open>Exception\<close>, when it is used up;
  the argument is the nesting that is left.
\<close>

definition base_registry :: "handler \<Rightarrow> command_registry" where
  "base_registry run_macro =
     [(asc ''shutdown'', \<lparr>entry_handler = cmd_shutdown, entry_label = label_shutdown\<rparr>),
      (asc ''restart'', \<lparr>entry_handler = cmd_restart, entry_label = label_restart\<rparr>),
      (asc ''cancel_shutdown'',
         \<lparr>entry_handler = cmd_cancel_shutdown, entry_label = label_cancel_shutdown\<rparr>),
      (asc ''sleep'', \<lparr>entry_handler = cmd_sleep, entry_label = label_sleep\<rparr>),
      (asc ''lock'', \<lparr>entry_handler = cmd_lock, entry_label = label_lock\<rparr>),
      (asc ''hibernate'', \<lparr>entry_handler = cmd_hibernate, entry_label = label_hibernate\<rparr>),
      (asc ''open_app'', \<lparr>entry_handler = cmd_open_app, entry_label = label_open_app\<rparr>),
      (asc ''close_app'', \<lparr>entry_handler = cmd_close_app, entry_label = label_close_app\<rparr>),
      (asc ''volume_up'', \<lparr>entry_handler = cmd_volume_up, entry_label = label_volume_up\<rparr>),
      (asc ''volume_down'', \<lparr>entry_handler = cmd_volume_down, entry_label = label_volume_down\<rparr>),
      (asc ''volume_mute'', \<lparr>entry_handler = cmd_volume_mute, entry_label = asc ''Mute''\<rparr>),
      (asc ''media_play_pause'',
         \<lparr>entry_handler = cmd_media_play_pause, entry_label = asc ''Play/Pause''\<rparr>),
      (asc ''media_next'', \<lparr>entry_handler = cmd_media_next, entry_label = label_media_next\<rparr>),
      (asc ''media_prev'', \<lparr>entry_handler = cmd_media_prev, entry_label = label_media_prev\<rparr>),
      (asc ''screenshot'', \<lparr>entry_handler = cmd_screenshot, entry_label = label_screenshot\<rparr>),
      (asc ''type_text'', \<lparr>entry_handler = cmd_type_text, entry_label = label_type_text\<rparr>),
      (asc ''open_url'', \<lparr>entry_handler = cmd_open_url, entry_label = label_open_url\<rparr>),
      (asc ''hotkey'', \<lparr>entry_handler = cmd_hotkey, entry_label = label_hotkey\<rparr>),
      (asc ''run_macro'', \<lparr>entry_handler = run_macro, entry_label = label_run_macro\<rparr>),
      (asc ''list_macros'',
         \<lparr>entry_handler = cmd_list_macros MACRO_REGISTRY, entry_label = label_list_macros\<rparr>)]"

primrec COMMAND_REGISTRY :: "nat \<Rightarrow> command_registry" where
  "COMMAND_REGISTRY 0 =
     base_registry (\<lambda>e ps w. (Inl (PyExc ''RecursionError'' (py_errmsg e ''recursion'' JNull)), w))"
| "COMMAND_REGISTRY (Suc d) =
     base_registry (cmd_run_macro MACRO_REGISTRY (COMMAND_REGISTRY d))"

section \<open>The confirmation gate\<close>

text \<open>The string literals of \<open>handlers.py\<close> that the gate uses.\<close>

definition msg_command :: ustr where
  "msg_command =
     [127919, 32, 1050, 1086, 1084, 1072, 1085, 1076, 1072, 58, 32]"

definition msg_parsing :: ustr where
  "msg_parsing =
     [10, 9203, 32, 1056, 1072, 1079, 1073, 1080, 1088, 1072, 1102, 46, 46, 46]"

definition msg_not_recognized :: ustr where
  "msg_not_recognized =
     [10, 10060, 32, 1053, 1077, 32, 1091, 1076, 1072, 1083, 1086, 1089, 1100, 32, 1088,
     1072, 1089, 1087, 1086, 1079, 1085, 1072, 1090, 1100, 46]"

definition msg_warning :: ustr where
  "msg_warning =
     [9888, 65039, 32]"

definition msg_params :: ustr where
  "msg_params =
     [10, 1055, 1072, 1088, 1072, 1084, 1077, 1090, 1088, 1099, 58, 32]"

definition msg_confirm_prompt :: ustr where
  "msg_confirm_prompt =
     [10, 10, 1054, 1090, 1087, 1088, 1072, 1074, 1100, 32, 39, 1076, 1072, 39, 32,
     1076, 1083, 1103, 32, 1087, 1086, 1076, 1090, 1074, 1077, 1088, 1078, 1076, 1077,
     1085, 1080, 1103, 32, 1080, 1083, 1080, 32, 39, 1085, 1077, 1090, 39, 32, 1076,
     1083, 1103, 32, 1086, 1090, 1084, 1077, 1085, 1099, 46]"

definition msg_taking_screenshot :: ustr where
  "msg_taking_screenshot =
     [128248, 32, 1044, 1077, 1083, 1072, 1102, 32, 1089, 1082, 1088, 1080, 1085, 1096,
     1086, 1090, 46, 46, 46]"

definition msg_screenshot_sent :: ustr where
  "msg_screenshot_sent =
     [128248, 32, 1057, 1082, 1088, 1080, 1085, 1096, 1086, 1090, 32, 1086, 1090, 1087,
     1088, 1072, 1074, 1083, 1077, 1085, 46]"

definition msg_screenshot_failed :: ustr where
  "msg_screenshot_failed =
     [10060, 32, 1053, 1077, 32, 1091, 1076, 1072, 1083, 1086, 1089, 1100, 32, 1089,
     1076, 1077, 1083, 1072, 1090, 1100, 32, 1089, 1082, 1088, 1080, 1085, 1096, 1086,
     1090, 46]"

definition msg_target :: ustr where
  "msg_target =
     [127919, 32]"

definition msg_cancelled :: ustr where
  "msg_cancelled =
     [10060, 32, 1050, 1086, 1084, 1072, 1085, 1076, 1072, 32, 1086, 1090, 1084, 1077,
     1085, 1077, 1085, 1072, 46]"

definition word_da :: ustr where
  "word_da =
     [1076, 1072]"

definition word_ok_cyr :: ustr where
  "word_ok_cyr =
     [1086, 1082]"

definition word_podtverzhdayu :: ustr where
  "word_podtverzhdayu =
     [1087, 1086, 1076, 1090, 1074, 1077, 1088, 1078, 1076, 1072, 1102]"

definition word_davay :: ustr where
  "word_davay =
     [1076, 1072, 1074, 1072, 1081]"

definition msg_voice_error :: ustr where
  "msg_voice_error =
     [1054, 1096, 1080, 1073, 1082, 1072, 58, 32]"

text \<open>
  What a handler sends to the chat: an edit of the status message, a new message, a
  document. Sending is taken to succeed.
\<close>

datatype chat_action = EditText ustr | Answer ustr | AnswerDocument

type_synonym uid = int

text \<open>
  The module state of \<open>handlers.py\<close> that the gate touches, with the host machine and
  the chat. \<open>dispatched\<close> records every call of \<open>execute_command\<close> the handlers make,
  oldest first: the intent and the parameters passed.
\<close>

record bot_state =
  pending_confirmations :: "uid \<rightharpoonup> intent_data"
  host :: world
  chat :: "(uid \<times> chat_action) list"
  dispatched :: "(ustr \<times> params) list"

definition say :: "uid \<Rightarrow> chat_action \<Rightarrow> bot_state \<Rightarrow> bot_state" where
  "say u a s = s\<lparr>chat := chat s @ [(u, a)]\<rparr>"

definition is_authorized :: "int \<Rightarrow> uid \<Rightarrow> bool" where
  "is_authorized TELEGRAM_USER_ID u \<longleftrightarrow> TELEGRAM_USER_ID = 0 \<or> u = TELEGRAM_USER_ID"

text \<open>
  The call of \<open>execute_command\<close> from a handler: the host machine moves on and the call
  is recorded.
\<close>

definition dispatch ::
  "command_registry \<Rightarrow> env \<Rightarrow> ustr \<Rightarrow> params \<Rightarrow> bot_state \<Rightarrow> result \<times> bot_state" where
  "dispatch reg e i ps s =
     (case execute_command reg e i ps (host s) of
        (r, w') \<Rightarrow> (r, s\<lparr>host := w', dispatched := dispatched s @ [(i, ps)]\<rparr>))"

text \<open>
  \<open>handle_command_voice\<close>. The sender \<open>u\<close> is \<open>message.from_user.id\<close>; \<open>parsed\<close> is what
  \<open>parse_intent\<close> answered for \<open>command_text\<close> (\<open>None\<close> also stands for an empty dict).
  An exception leaving the function is caught by the caller, \<open>handle_voice\<close>, which
  reports it in the status message.
\<close>

definition handle_command_voice ::
  "command_registry \<Rightarrow> env \<Rightarrow> uid \<Rightarrow> ustr \<Rightarrow> intent_data option \<Rightarrow> bot_state \<Rightarrow> bot_state" where
  "handle_command_voice reg e u command_text parsed s =
     (let s1 = say u (EditText (msg_command @ command_text @ msg_parsing)) s in
      case parsed of
        None \<Rightarrow> say u (EditText (msg_command @ command_text @ msg_not_recognized)) s1
      | Some d \<Rightarrow>
          if intent_of d = asc ''unknown''
          then say u (EditText (msg_command @ command_text @ msg_not_recognized)) s1
          else if intent_of d \<in> DANGEROUS_INTENTS
          then
            (let lbl = (case map_of reg (intent_of d) of
                          None \<Rightarrow> intent_of d
                        | Some ent \<Rightarrow> entry_label ent) in
             say u (EditText (msg_warning @ lbl @ msg_params @ py_str e (JObj (get_params d)) @
                              msg_confirm_prompt))
               (s1\<lparr>pending_confirmations := (pending_confirmations s1)(u \<mapsto> d)\<rparr>))
          else if intent_of d = asc ''screenshot''
          then
            (let s2 = say u (EditText msg_taking_screenshot) s1 in
             case os_do e Grab (host s2) of
               (Completed rc err, w') \<Rightarrow>
                 say u (EditText msg_screenshot_sent) (say u AnswerDocument (s2\<lparr>host := w'\<rparr>))
             | (Failed x, w') \<Rightarrow> say u (EditText msg_screenshot_failed) (s2\<lparr>host := w'\<rparr>))
          else
            (case dispatch reg e (intent_of d) (get_params d) s1 of
               (Inr res, s2) \<Rightarrow> say u (EditText (msg_target @ command_text @ [10] @ res)) s2
             | (Inl x, s2) \<Rightarrow> say u (EditText (msg_voice_error @ exc_text x)) s2))"

text \<open>The affirmative vocabulary of \<open>handle_text\<close>.\<close>

definition AFFIRMATIVE :: "ustr list" where
  "AFFIRMATIVE = [word_da, asc ''yes'', word_ok_cyr, asc ''ok'', word_podtverzhdayu, word_davay]"

text \<open>
  \<open>handle_text\<close>. \<open>from_user\<close> is \<open>message.from_user\<close> (absent on a channel post) and
  \<open>txt\<close> is \<open>message.text\<close>. An exception leaving the handler is the framework's to log.
\<close>

definition handle_text ::
  "command_registry \<Rightarrow> env \<Rightarrow> int \<Rightarrow> uid option \<Rightarrow> ustr \<Rightarrow> bot_state \<Rightarrow> bot_state" where
  "handle_text reg e TELEGRAM_USER_ID from_user txt s =
     (case from_user of
        None \<Rightarrow> s
      | Some u \<Rightarrow>
          if \<not> is_authorized TELEGRAM_USER_ID u then s
          else
            (let t = str_lower e (py_strip txt) in
             case pending_confirmations s u of
               None \<Rightarrow> s
             | Some d \<Rightarrow>
                 (let s1 = s\<lparr>pending_confirmations := (pending_confirmations s)(u := None)\<rparr> in
                  if t \<in> set AFFIRMATIVE
                  then
                    (case dispatch reg e (intent_of d) (get_params d) s1 of
                       (Inr res, s2) \<Rightarrow> say u (Answer (mark_ok @ res)) s2
                     | (Inl x, s2) \<Rightarrow> s2)
                  else say u (Answer msg_cancelled) s1)))"

text \<open>
  The messages that reach the gate: a voice message that carried the wake word and was
  no reminder request (\<open>handle_voice\<close> passes it to \<open>handle_command_voice\<close> when its
  sender is authorised, and drops it otherwise), and a plain-text message.
\<close>

datatype event =
    VoiceCommand uid ustr "intent_data option"
  | TextMessage "uid option" ustr

fun step :: "command_registry \<Rightarrow> env \<Rightarrow> int \<Rightarrow> bot_state \<Rightarrow> event \<Rightarrow> bot_state" where
  "step reg e tid s (VoiceCommand u command_text parsed) =
     (if \<not> is_authorized tid u then s
      else handle_command_voice reg e u command_text parsed s)"
| "step reg e tid s (TextMessage from_user txt) = handle_text reg e tid from_user txt s"

definition run :: "command_registry \<Rightarrow> env \<Rightarrow> int \<Rightarrow> bot_state \<Rightarrow> event list \<Rightarrow> bot_state" where
  "run reg e tid s evs = foldl (step reg e tid) s evs"

definition initial_state :: bot_state where
  "initial_state = \<lparr>pending_confirmations = Map.empty, host = [], chat = [], dispatched = []\<rparr>"

text \<open>
  The comparison the specification describes: the message equals a word of the
  vocabulary up to letter case, with nothing trimmed.
\<close>

definition equals_ignoring_case :: "env \<Rightarrow> ustr \<Rightarrow> ustr list \<Rightarrow> bool" where
  "equals_ignoring_case e txt vocabulary \<longleftrightarrow>
     str_lower e txt \<in> set (map (str_lower e) vocabulary)"

section \<open>Reminders\<close>

text \<open>
  A row of the \<open>reminders\<close> table. \<open>remind_at\<close> is stored as text and compared by the
  database; all that is used of it is that the comparison is a linear order, so the
  type of times is left open.
\<close>

record 't reminder =
  reminder_id :: nat
  user_id :: uid
  reminder_text :: ustr
  remind_at :: 't
  created_at :: 't
  fired :: bool

text \<open>The table, in row order. Nothing in the program deletes a row.\<close>

type_synonym 't reminders = "'t reminder list"

text \<open>
  \<open>INSERT\<close> with \<open>AUTOINCREMENT\<close>: the new id is one more than the largest id so far;
  \<open>fired\<close> takes its default 0 and \<open>created_at\<close> the time of the insert.
\<close>

definition next_id :: "'t reminders \<Rightarrow> nat" where
  "next_id rows = Suc (fold max (map reminder_id rows) 0)"

definition save_reminder :: "'t \<Rightarrow> uid \<Rightarrow> ustr \<Rightarrow> 't \<Rightarrow> 't reminders \<Rightarrow> nat \<times> 't reminders" where
  "save_reminder stamp u txt at rows =
     (next_id rows,
      rows @ [\<lparr>reminder_id = next_id rows, user_id = u, reminder_text = txt, remind_at = at,
               created_at = stamp, fired = False\<rparr>])"

text \<open>
  \<open>SELECT * FROM reminders WHERE fired = 0 AND remind_at <= ? ORDER BY remind_at ASC\<close>,
  with \<open>now\<close> the value of \<open>datetime.now().isoformat()\<close>.
\<close>

definition get_pending_reminders :: "'t::linorder \<Rightarrow> 't reminders \<Rightarrow> 't reminders" where
  "get_pending_reminders now rows =
     sort_key remind_at (filter (\<lambda>r. \<not> fired r \<and> remind_at r \<le> now) rows)"

text \<open>\<open>UPDATE reminders SET fired = 1 WHERE id = ?\<close>.\<close>

definition mark_reminder_fired :: "nat \<Rightarrow> 't reminders \<Rightarrow> 't reminders" where
  "mark_reminder_fired i rows =
     map (\<lambda>r. if reminder_id r = i then r\<lparr>fired := True\<rparr> else r) rows"

definition get_user_reminders :: "uid \<Rightarrow> ('t::linorder) reminders \<Rightarrow> 't reminders" where
  "get_user_reminders u rows =
     sort_key remind_at (filter (\<lambda>r. user_id r = u \<and> \<not> fired r) rows)"

definition msg_reminder :: ustr where
  "msg_reminder =
     [240, 376, 8221, 8221, 32, 208, 208, 176, 208, 191, 208, 190, 208, 188, 208, 184,
     208, 189, 208, 176, 208, 189, 208, 184, 208, 181, 58, 10]"


text \<open>
  What the outside answers during one poll: whether sending a reminder raises, whether
  the update of a row raises, whether the query raises (\<open>None\<close>: it does not).
\<close>

record 't channel =
  send_fails :: "'t reminder \<Rightarrow> pyexc option"
  mark_fails :: "nat \<Rightarrow> pyexc option"
  query_fails :: "pyexc option"

text \<open>
  The module state of \<open>scheduler.py\<close> with the table. \<open>sched_bot\<close> is the global \<open>_bot\<close>,
  \<open>None\<close> until \<open>start_scheduler\<close> sets it. \<open>attempted\<close> records every call of
  \<open>send_message\<close> (for which reminder, to whom, what) and \<open>delivered\<close> those that
  returned.
\<close>

record 't sched_state =
  reminders :: "'t reminders"
  sched_bot :: "unit option"
  attempted :: "(nat \<times> uid \<times> ustr) list"
  delivered :: "(nat \<times> uid \<times> ustr) list"

definition start_scheduler :: "'t sched_state \<Rightarrow> 't sched_state" where
  "start_scheduler s = s\<lparr>sched_bot := Some ()\<rparr>"

text \<open>The second half of the inner \<open>try\<close>: \<open>await db.mark_reminder_fired(reminder["id"])\<close>.\<close>

definition mark_step :: "'t channel \<Rightarrow> 't reminder \<Rightarrow> 't sched_state \<Rightarrow> 't sched_state" where
  "mark_step c r s =
     (case mark_fails c (reminder_id r) of
        Some x \<Rightarrow> s
      | None \<Rightarrow> s\<lparr>reminders := mark_reminder_fired (reminder_id r) (reminders s)\<rparr>)"

text \<open>The body of the loop of \<open>check_reminders\<close>, with its \<open>try\<close>.\<close>

definition process_reminder :: "'t channel \<Rightarrow> 't reminder \<Rightarrow> 't sched_state \<Rightarrow> 't sched_state" where
  "process_reminder c r s =
     (let m = (reminder_id r, user_id r, msg_reminder @ reminder_text r) in
      case sched_bot s of
        None \<Rightarrow> mark_step c r s
      | Some b \<Rightarrow>
          (case send_fails c r of
             Some x \<Rightarrow> s\<lparr>attempted := attempted s @ [m]\<rparr>
           | None \<Rightarrow>
               mark_step c r (s\<lparr>attempted := attempted s @ [m], delivered := delivered s @ [m]\<rparr>)))"

fun poll_loop :: "'t channel \<Rightarrow> 't reminder list \<Rightarrow> 't sched_state \<Rightarrow> 't sched_state" where
  "poll_loop c [] s = s"
| "poll_loop c (r # pending) s = poll_loop c pending (process_reminder c r s)"

definition check_reminders :: "'t channel \<Rightarrow> ('t::linorder) \<Rightarrow> 't sched_state \<Rightarrow> 't sched_state" where
  "check_reminders c now s =
     (case query_fails c of
        Some x \<Rightarrow> s
      | None \<Rightarrow> poll_loop c (get_pending_reminders now (reminders s)) s)"

text \<open>
  What the program does to the table over time: \<open>create_reminder\<close> saves a row, the
  scheduler polls.
\<close>

datatype 't store_op =
    Save 't uid ustr 't
  | Poll "'t channel" 't

fun apply_op :: "('t::linorder) sched_state \<Rightarrow> 't store_op \<Rightarrow> 't sched_state" where
  "apply_op s (Save stamp u txt at) =
     s\<lparr>reminders := snd (save_reminder stamp u txt at (reminders s))\<rparr>"
| "apply_op s (Poll c now) = check_reminders c now s"

definition run_ops :: "('t::linorder) sched_state \<Rightarrow> 't store_op list \<Rightarrow> 't sched_state" where
  "run_ops s ops = foldl apply_op s ops"

section \<open>Notions used to state the properties\<close>

text \<open>The world after a list of steps has been dispatched one after the other.\<close>

definition world_after :: "command_registry \<Rightarrow> env \<Rightarrow> world \<Rightarrow> intent_data list \<Rightarrow> world" where
  "world_after reg e w steps =
     foldl (\<lambda>w' st. snd (execute_command reg e (intent_of st) (get_params st) w')) w steps"

text \<open>No press of the key raises, whatever has happened before.\<close>

definition presses_ok :: "env \<Rightarrow> ustr \<Rightarrow> bool" where
  "presses_ok e k \<longleftrightarrow> (\<forall>w x. os_reply e w (Press k) \<noteq> Failed x)"

text \<open>\<open>t in s\<close> on strings.\<close>

definition contains :: "ustr \<Rightarrow> ustr \<Rightarrow> bool" where
  "contains s t \<longleftrightarrow> (\<exists>pre suf. s = pre @ t @ suf)"

text \<open>
  Two environments to run the program in: one where every call completes with return
  code 0, one where \<open>taskkill\<close> finds no process and everything else completes.
\<close>

definition env_ok :: env where
  "env_ok = \<lparr>os_reply = (\<lambda>w c. Completed 0 []), py_repr = (\<lambda>v. []),
              py_errmsg = (\<lambda>op v. asc op), str_lower = sample_lower\<rparr>"

definition env_taskkill_fails :: env where
  "env_taskkill_fails =
     \<lparr>os_reply = (\<lambda>w c. case c of Run argv \<Rightarrow> (if hd argv = asc ''taskkill'' then Completed 128 (asc ''ERROR: not found'' @ [10]) else Completed 0 []) | _ \<Rightarrow> Completed 0 []),
      py_repr = (\<lambda>v. []), py_errmsg = (\<lambda>op v. asc op), str_lower = sample_lower\<rparr>"

text \<open>A macro registry with a step whose intent is in no command registry.\<close>

definition sample_macros :: macro_registry where
  "sample_macros =
     [(asc ''demo'', \<lparr>macro_label = asc ''Demo'', macro_steps =
         [\<lparr>intent_of = asc ''volume_mute'', params_of = Some []\<rparr>,
          \<lparr>intent_of = asc ''fly'', params_of = None\<rparr>,
          \<lparr>intent_of = asc ''lock'', params_of = Some []\<rparr>]\<rparr>)]"

text \<open>A table with times as numbers: two due rows out of order, one not yet due, one fired.\<close>

definition sample_rows :: "nat reminders" where
  "sample_rows =
     [\<lparr>reminder_id = 1, user_id = 7, reminder_text = asc ''tea'', remind_at = 5, created_at = 1, fired = False\<rparr>,
      \<lparr>reminder_id = 2, user_id = 7, reminder_text = asc ''call'', remind_at = 3, created_at = 1, fired = False\<rparr>,
      \<lparr>reminder_id = 3, user_id = 7, reminder_text = asc ''walk'', remind_at = 9, created_at = 2, fired = False\<rparr>,
      \<lparr>reminder_id = 4, user_id = 7, reminder_text = asc ''mail'', remind_at = 2, created_at = 2, fired = True\<rparr>]"

text \<open>A row is due at \<open>now\<close>: not fired and its time has come.\<close>

definition due :: "('t::linorder) \<Rightarrow> 't reminder \<Rightarrow> bool" where
  "due now r \<longleftrightarrow> \<not> fired r \<and> remind_at r \<le> now"

text \<open>The log entry of the message sent for a row.\<close>

definition msg_of :: "'t reminder \<Rightarrow> nat \<times> uid \<times> ustr" where
  "msg_of r = (reminder_id r, user_id r, msg_reminder @ reminder_text r)"

text \<open>
  Processing the row ends with \<open>fired\<close> set: sending did not raise (or there was no bot to
  send with), and the update did not raise.
\<close>

definition fires :: "'t channel \<Rightarrow> unit option \<Rightarrow> 't reminder \<Rightarrow> bool" where
  "fires c b r \<longleftrightarrow> (b = None \<or> send_fails c r = None) \<and> mark_fails c (reminder_id r) = None"

text \<open>The table with \<open>fired\<close> set on the rows whose id is in the set.\<close>

definition mark_all :: "nat set \<Rightarrow> 't reminders \<Rightarrow> 't reminders" where
  "mark_all ids rows = map (\<lambda>r. if reminder_id r \<in> ids then r\<lparr>fired := True\<rparr> else r) rows"

text \<open>The row with this id is in the table and fired, and ids are not repeated.\<close>

definition stays_fired :: "nat \<Rightarrow> 't sched_state \<Rightarrow> bool" where
  "stays_fired i s \<longleftrightarrow>
     distinct (map reminder_id (reminders s)) \<and>
     (\<exists>r \<in> set (reminders s). reminder_id r = i \<and> fired r)"

text \<open>
  Two channels: one on which nothing fails, one on which sending the reminder with id 2
  fails. The state of the module before \<open>start_scheduler\<close>, over a given table.
\<close>

definition chan_ok :: "nat channel" where
  "chan_ok = \<lparr>send_fails = (\<lambda>r. None), mark_fails = (\<lambda>i. None), query_fails = None\<rparr>"

definition chan_second_fails :: "nat channel" where
  "chan_second_fails =
     \<lparr>send_fails = (\<lambda>r. if reminder_id r = 2
                         then Some (PyExc ''TelegramNetworkError'' (asc ''timeout'')) else None),
      mark_fails = (\<lambda>i. None), query_fails = None\<rparr>"

definition idle_state :: "'t reminders \<Rightarrow> 't sched_state" where
  "idle_state rows = \<lparr>reminders = rows, sched_bot = None, attempted = [], delivered = []\<rparr>"

text \<open>The state after a first poll at time 7 on the sample table, and what happens next.\<close>

definition after_first_poll :: "nat sched_state" where
  "after_first_poll = check_reminders chan_ok 7 (start_scheduler (idle_state sample_rows))"

definition sample_ops :: "nat store_op list" where
  "sample_ops = [Poll chan_ok 8, Save 8 7 (asc ''nap'') 9, Poll chan_ok 20]"

text \<open>
  The reply counts as a yes for \<open>handle_text\<close>: stripped and lower-cased it is a word of
  the vocabulary.
\<close>

definition is_affirmative :: "env \<Rightarrow> ustr \<Rightarrow> bool" where
  "is_affirmative e msg \<longleftrightarrow> str_lower e (py_strip msg) \<in> set AFFIRMATIVE"

text \<open>The label shown for an intent: \<open>COMMAND_REGISTRY.get(intent, {}).get("label", intent)\<close>.\<close>

definition label_for :: "command_registry \<Rightarrow> ustr \<Rightarrow> ustr" where
  "label_for reg i = (case map_of reg i of None \<Rightarrow> i | Some ent \<Rightarrow> entry_label ent)"

text \<open>A message is a text of operator \<open>u\<close>; a message is a dangerous voice request of \<open>u\<close>.\<close>

definition is_text_from :: "uid \<Rightarrow> event \<Rightarrow> bool" where
  "is_text_from u ev \<longleftrightarrow> (\<exists>msg. ev = TextMessage (Some u) msg)"

definition is_dangerous_request :: "uid \<Rightarrow> event \<Rightarrow> bool" where
  "is_dangerous_request u ev \<longleftrightarrow>
     (\<exists>c d. ev = VoiceCommand u c (Some d) \<and> intent_of d \<in> DANGEROUS_INTENTS)"

text \<open>
  At the end of a list of messages the authorised operator \<open>u\<close> is still waiting to
  confirm the dangerous descriptor \<open>d\<close>: \<open>u\<close> asked for \<open>d\<close> by voice, and since then \<open>u\<close>
  has neither sent a text nor asked for another dangerous action.
\<close>

definition awaiting :: "int \<Rightarrow> event list \<Rightarrow> uid \<Rightarrow> intent_data \<Rightarrow> bool" where
  "awaiting tid evs u d \<longleftrightarrow>
     is_authorized tid u \<and> intent_of d \<in> DANGEROUS_INTENTS \<and>
     (\<exists>m c. m < length evs \<and> evs ! m = VoiceCommand u c (Some d) \<and>
        (\<forall>j. m < j \<and> j < length evs \<longrightarrow>
           \<not> is_text_from u (evs ! j) \<and> \<not> is_dangerous_request u (evs ! j)))"

text \<open>
  Message number \<open>n\<close> confirms the call \<open>x\<close> of the dispatcher: it is an affirmative text
  of an operator who, in the messages before it, was waiting to confirm the descriptor
  that \<open>x\<close> is the call of.
\<close>

definition confirmed_at :: "env \<Rightarrow> int \<Rightarrow> event list \<Rightarrow> nat \<Rightarrow> ustr \<times> params \<Rightarrow> bool" where
  "confirmed_at e tid evs n x \<longleftrightarrow>
     (\<exists>u msg d. n < length evs \<and> evs ! n = TextMessage (Some u) msg \<and>
        is_affirmative e msg \<and> awaiting tid (take n evs) u d \<and>
        x = (intent_of d, get_params d))"

text \<open>
  The calls of the dispatcher made while message number \<open>n\<close> of the run is handled: what
  the log holds after that message beyond what it held before it.
\<close>

definition step_calls ::
  "command_registry \<Rightarrow> env \<Rightarrow> int \<Rightarrow> event list \<Rightarrow> nat \<Rightarrow> (ustr \<times> params) list" where
  "step_calls reg e tid evs n =
     drop (length (dispatched (run reg e tid initial_state (take n evs))))
       (dispatched (run reg e tid initial_state (take (Suc n) evs)))"

text \<open>What holds of the gate after any list of messages: whoever has a pending entry is
  waiting to confirm it.\<close>

definition gate_inv :: "int \<Rightarrow> event list \<Rightarrow> bot_state \<Rightarrow> bool" where
  "gate_inv tid evs s \<longleftrightarrow>
     (\<forall>u d. pending_confirmations s u = Some d \<longrightarrow> awaiting tid evs u d)"

text \<open>
  Sample descriptors, a state in which operator 7 has a shutdown pending, a dialogue in
  which the operator asks for it and answers with a capitalised Cyrillic yes, and a
  \<open>yes\<close> with a space in front.
\<close>

definition shutdown_300 :: intent_data where
  "shutdown_300 = \<lparr>intent_of = asc ''shutdown'',
                    params_of = Some [(asc ''delay_seconds'', JInt 300)]\<rparr>"

definition restart_now :: intent_data where
  "restart_now = \<lparr>intent_of = asc ''restart'', params_of = Some []\<rparr>"

definition gate_waiting :: bot_state where
  "gate_waiting = initial_state\<lparr>pending_confirmations := [7 \<mapsto> shutdown_300]\<rparr>"

definition sample_dialogue :: "event list" where
  "sample_dialogue =
     [VoiceCommand 7 (asc ''shutdown in 5 minutes'') (Some shutdown_300),
      TextMessage (Some 7) [1044, 1072]]"

definition padded_yes :: ustr where
  "padded_yes = asc '' yes''"

section \<open>The dispatcher\<close>

lemma execute_command_Inr:
  "\<exists>out w'. execute_command reg e i ps w = (Inr out, w')"
  by (auto simp: execute_command_def split: option.splits prod.splits sum.splits)

lemma unknown_differs:
  "msg_unknown_command @ i \<noteq> msg_exec_error @ j @ t"
  by (simp add: msg_unknown_command_def msg_exec_error_def)

lemma registry_close_app:
  "map_of (COMMAND_REGISTRY d) (asc ''close_app'') =
     Some \<lparr>entry_handler = cmd_close_app, entry_label = label_close_app\<rparr>"
  by (cases d) (simp_all add: base_registry_def asc_def)

lemma registry_fly: "map_of (COMMAND_REGISTRY d) (asc ''fly'') = None"
  by (cases d) (simp_all add: base_registry_def asc_def)

lemma close_app_number_raises:
  "cmd_close_app env_ok [(asc ''name'', JInt 5)] [] =
     (Inl (PyExc ''AttributeError'' (asc ''endswith'')), [])"
  by (simp add: cmd_close_app_def dict_get_def env_ok_def)

text \<open>
  C8. For every registry, intent name and parameters, \<open>execute_command\<close> returns an
  outcome string and raises nothing. An intent that is not in the registry gives the
  "unknown command" message and leaves the host untouched; a handler that raises gives
  the "execution error" message built from the exception; a handler that returns gives
  its own outcome. The "unknown command" message differs from every "execution error"
  message.
\<close>

theorem dispatch_never_raises:
  "(\<exists>out w'. execute_command reg e i ps w = (Inr out, w')) \<and>
   (map_of reg i = None \<longrightarrow>
      execute_command reg e i ps w = (Inr (msg_unknown_command @ i), w)) \<and>
   (\<forall>ent x w'. map_of reg i = Some ent \<and> entry_handler ent e ps w = (Inl x, w') \<longrightarrow>
      execute_command reg e i ps w = (Inr (msg_exec_error @ i @ asc '': '' @ exc_text x), w')) \<and>
   (\<forall>ent out w'. map_of reg i = Some ent \<and> entry_handler ent e ps w = (Inr out, w') \<longrightarrow>
      execute_command reg e i ps w = (Inr out, w')) \<and>
   (\<forall>j t. msg_unknown_command @ i \<noteq> msg_exec_error @ j @ t)"
proof (intro conjI allI impI)
  show "\<exists>out w'. execute_command reg e i ps w = (Inr out, w')"
    by (rule execute_command_Inr)
next
  assume "map_of reg i = None"
  then show "execute_command reg e i ps w = (Inr (msg_unknown_command @ i), w)"
    by (simp add: execute_command_def)
next
  fix ent x w'
  assume "map_of reg i = Some ent \<and> entry_handler ent e ps w = (Inl x, w')"
  then show "execute_command reg e i ps w =
      (Inr (msg_exec_error @ i @ asc '': '' @ exc_text x), w')"
    by (simp add: execute_command_def)
next
  fix ent out w'
  assume "map_of reg i = Some ent \<and> entry_handler ent e ps w = (Inr out, w')"
  then show "execute_command reg e i ps w = (Inr out, w')"
    by (simp add: execute_command_def)
next
  fix j t
  show "msg_unknown_command @ i \<noteq> msg_exec_error @ j @ t"
    by (rule unknown_differs)
qed

theorem dispatch_never_raises_witness:
  "map_of (COMMAND_REGISTRY 1) (asc ''fly'') = None \<and>
   execute_command (COMMAND_REGISTRY 1) env_ok (asc ''fly'') [] [] =
     (Inr (msg_unknown_command @ asc ''fly''), []) \<and>
   map_of (COMMAND_REGISTRY 1) (asc ''close_app'') =
     Some \<lparr>entry_handler = cmd_close_app, entry_label = label_close_app\<rparr> \<and>
   cmd_close_app env_ok [(asc ''name'', JInt 5)] [] =
     (Inl (PyExc ''AttributeError'' (asc ''endswith'')), []) \<and>
   execute_command (COMMAND_REGISTRY 1) env_ok (asc ''close_app'') [(asc ''name'', JInt 5)] [] =
     (Inr (msg_exec_error @ asc ''close_app'' @ asc '': '' @ asc ''endswith''), [])"
proof -
  have a: "map_of (COMMAND_REGISTRY 1) (asc ''fly'') = None" by (rule registry_fly)
  have b: "map_of (COMMAND_REGISTRY 1) (asc ''close_app'') =
     Some \<lparr>entry_handler = cmd_close_app, entry_label = label_close_app\<rparr>"
    by (rule registry_close_app)
  note c = close_app_number_raises
  from dispatch_never_raises [of "COMMAND_REGISTRY 1" env_ok "asc ''fly''" "[]" "[]"] a
  have d: "execute_command (COMMAND_REGISTRY 1) env_ok (asc ''fly'') [] [] =
     (Inr (msg_unknown_command @ asc ''fly''), [])" by blast
  from dispatch_never_raises [of "COMMAND_REGISTRY 1" env_ok "asc ''close_app''"
      "[(asc ''name'', JInt 5)]" "[]"] b c
  have f: "execute_command (COMMAND_REGISTRY 1) env_ok (asc ''close_app'') [(asc ''name'', JInt 5)] [] =
     (Inr (msg_exec_error @ asc ''close_app'' @ asc '': '' @ asc ''endswith''), [])"
    by simp
  from a b c d f show ?thesis by blast
qed

section \<open>Volume up\<close>

lemma press_n_ok:
  "presses_ok e k \<Longrightarrow> press_n e k n w = (None, w @ replicate n (Press k))"
proof (induction n arbitrary: w)
  case 0
  show ?case by simp
next
  case (Suc n)
  from Suc.prems obtain rc err where r: "os_reply e w (Press k) = Completed rc err"
    unfolding presses_ok_def by (cases "os_reply e w (Press k)") auto
  have "press_n e k (Suc n) w = press_n e k n (w @ [Press k])"
    by (simp add: os_do_def r)
  also have "\<dots> = (None, (w @ [Press k]) @ replicate n (Press k))"
    by (rule Suc.IH [OF Suc.prems])
  finally show ?case by (simp add: replicate_append_same)
qed

lemma registry_volume_up:
  "map_of (COMMAND_REGISTRY d) (asc ''volume_up'') =
     Some \<lparr>entry_handler = cmd_volume_up, entry_label = label_volume_up\<rparr>"
  by (cases d) (simp_all add: base_registry_def asc_def)

lemma cmd_volume_up_int:
  assumes "presses_ok e (asc ''volumeup'')"
    and "dict_get ps (asc ''percent'') (JInt 10) = JInt p"
  shows "cmd_volume_up e ps w =
     (Inr (msg_volume_up @ show_int (max 1 (p div 2) * 2) @ asc ''%.''),
      w @ replicate (nat (max 1 (p div 2))) (Press (asc ''volumeup'')))"
  using assms by (simp add: cmd_volume_up_def press_n_ok Let_def)

lemma execute_volume_up_int:
  assumes "presses_ok e (asc ''volumeup'')"
    and "dict_get ps (asc ''percent'') (JInt 10) = JInt p"
  shows "execute_command (COMMAND_REGISTRY d) e (asc ''volume_up'') ps w =
     (Inr (msg_volume_up @ show_int (max 1 (p div 2) * 2) @ asc ''%.''),
      w @ replicate (nat (max 1 (p div 2))) (Press (asc ''volumeup'')))"
  by (simp add: execute_command_def registry_volume_up cmd_volume_up_int [OF assms])

lemma show_int_10: "show_int 10 = asc ''10''"
  by (simp add: show_int_def show_nat.simps asc_def)

lemma percent_given:
  "dict_get [(asc ''percent'', JInt p)] (asc ''percent'') (JInt 10) = JInt p"
  by (simp add: dict_get_def)

lemma percent_omitted:
  "map_of ps (asc ''percent'') = None \<Longrightarrow> dict_get ps (asc ''percent'') (JInt 10) = JInt 10"
  by (simp add: dict_get_def)

lemma env_ok_presses: "presses_ok env_ok k"
  by (simp add: presses_ok_def env_ok_def)

text \<open>
  C9. Where pressing the volume key does not raise: dispatching \<open>volume_up\<close> with
  \<open>{"percent": 10}\<close> gives an outcome that contains \<open>+10%\<close>; with \<open>percent\<close> left out the
  result is that of \<open>percent = 10\<close>, the default; for an integer \<open>percent = p\<close> the key is
  pressed \<open>n = max(1, p // 2)\<close> times, at least once, and the outcome reports \<open>2 * n\<close>
  percent, the amount of the presses made.
\<close>

theorem volume_up_outcome:
  assumes "presses_ok e (asc ''volumeup'')"
  shows "(\<exists>out w'. execute_command (COMMAND_REGISTRY d) e (asc ''volume_up'')
            [(asc ''percent'', JInt 10)] w = (Inr out, w') \<and> contains out (asc ''+10%'')) \<and>
         (map_of ps (asc ''percent'') = None \<longrightarrow>
            execute_command (COMMAND_REGISTRY d) e (asc ''volume_up'') ps w =
            execute_command (COMMAND_REGISTRY d) e (asc ''volume_up'')
              [(asc ''percent'', JInt 10)] w) \<and>
         (\<forall>p. dict_get ps (asc ''percent'') (JInt 10) = JInt p \<longrightarrow>
            (\<exists>n. 1 \<le> n \<and> n = max 1 (p div 2) \<and>
               execute_command (COMMAND_REGISTRY d) e (asc ''volume_up'') ps w =
                 (Inr (msg_volume_up @ show_int (2 * n) @ asc ''%.''),
                  w @ replicate (nat n) (Press (asc ''volumeup'')))))"
proof (intro conjI allI impI)
  have "execute_command (COMMAND_REGISTRY d) e (asc ''volume_up'')
          [(asc ''percent'', JInt 10)] w =
        (Inr (msg_volume_up @ asc ''10'' @ asc ''%.''),
         w @ replicate 5 (Press (asc ''volumeup'')))"
    using execute_volume_up_int [OF assms percent_given, where p = 10 and d = d and w = w]
    by (simp add: show_int_10)
  moreover have "contains (msg_volume_up @ asc ''10'' @ asc ''%.'') (asc ''+10%'')"
    unfolding contains_def
    by (rule exI [of _ "butlast msg_volume_up"], rule exI [of _ "asc ''.''"])
       (simp add: msg_volume_up_def asc_def)
  ultimately show "\<exists>out w'. execute_command (COMMAND_REGISTRY d) e (asc ''volume_up'')
            [(asc ''percent'', JInt 10)] w = (Inr out, w') \<and> contains out (asc ''+10%'')"
    by blast
next
  assume "map_of ps (asc ''percent'') = None"
  then have "dict_get ps (asc ''percent'') (JInt 10) = JInt 10" by (rule percent_omitted)
  then show "execute_command (COMMAND_REGISTRY d) e (asc ''volume_up'') ps w =
            execute_command (COMMAND_REGISTRY d) e (asc ''volume_up'')
              [(asc ''percent'', JInt 10)] w"
    using execute_volume_up_int [OF assms, where ps = ps and p = 10 and d = d and w = w]
      execute_volume_up_int [OF assms percent_given, where p = 10 and d = d and w = w] by simp
next
  fix p
  assume "dict_get ps (asc ''percent'') (JInt 10) = JInt p"
  from execute_volume_up_int [OF assms this, where d = d and w = w]
  show "\<exists>n. 1 \<le> n \<and> n = max 1 (p div 2) \<and>
               execute_command (COMMAND_REGISTRY d) e (asc ''volume_up'') ps w =
                 (Inr (msg_volume_up @ show_int (2 * n) @ asc ''%.''),
                  w @ replicate (nat n) (Press (asc ''volumeup'')))"
    by (simp add: mult.commute)
qed

theorem volume_up_outcome_witness:
  "presses_ok env_ok (asc ''volumeup'') \<and>
   map_of ([] :: params) (asc ''percent'') = None \<and>
   execute_command (COMMAND_REGISTRY 1) env_ok (asc ''volume_up'') [] [] =
     execute_command (COMMAND_REGISTRY 1) env_ok (asc ''volume_up'') [(asc ''percent'', JInt 10)] [] \<and>
   dict_get [(asc ''percent'', JInt 1)] (asc ''percent'') (JInt 10) = JInt 1 \<and>
   execute_command (COMMAND_REGISTRY 1) env_ok (asc ''volume_up'') [(asc ''percent'', JInt 1)] [] =
     (Inr (msg_volume_up @ asc ''2%.''), [Press (asc ''volumeup'')])"
proof -
  note h = env_ok_presses [of "asc ''volumeup''"]
  have a: "map_of ([] :: params) (asc ''percent'') = None" by simp
  from volume_up_outcome [OF h, where d = 1 and ps = "[]" and w = "[]"] a
  have b: "execute_command (COMMAND_REGISTRY 1) env_ok (asc ''volume_up'') [] [] =
     execute_command (COMMAND_REGISTRY 1) env_ok (asc ''volume_up'') [(asc ''percent'', JInt 10)] []"
    by blast
  have c: "dict_get [(asc ''percent'', JInt 1)] (asc ''percent'') (JInt 10) = JInt 1"
    by (rule percent_given)
  from volume_up_outcome [OF h, where d = 1 and ps = "[(asc ''percent'', JInt 1)]" and w = "[]"] c
  have "\<exists>n. 1 \<le> n \<and> n = max 1 ((1::int) div 2) \<and>
               execute_command (COMMAND_REGISTRY 1) env_ok (asc ''volume_up'') [(asc ''percent'', JInt 1)] [] =
                 (Inr (msg_volume_up @ show_int (2 * n) @ asc ''%.''),
                  [] @ replicate (nat n) (Press (asc ''volumeup'')))"
    by blast
  then have d: "execute_command (COMMAND_REGISTRY 1) env_ok (asc ''volume_up'') [(asc ''percent'', JInt 1)] [] =
     (Inr (msg_volume_up @ asc ''2%.''), [Press (asc ''volumeup'')])"
    by (auto simp: show_int_def show_nat.simps asc_def)
  from h a b c d show ?thesis by blast
qed

section \<open>The macro runner\<close>

lemma world_after_Cons:
  "world_after reg e w (st # rest) =
     world_after reg e (snd (execute_command reg e (intent_of st) (get_params st) w)) rest"
  by (simp add: world_after_def)

lemma macro_loop_char:
  "\<exists>lines. macro_loop reg e steps acc w = (acc @ lines, world_after reg e w steps) \<and>
     length lines = length steps \<and>
     (\<forall>k<length steps. \<exists>out w'.
        execute_command reg e (intent_of (steps ! k)) (get_params (steps ! k))
          (world_after reg e w (take k steps)) = (Inr out, w') \<and>
        lines ! k = mark_ok @ out)"
proof (induction steps arbitrary: acc w)
  case Nil
  show ?case by (simp add: world_after_def)
next
  case (Cons st rest)
  obtain out w1 where ex: "execute_command reg e (intent_of st) (get_params st) w = (Inr out, w1)"
    using execute_command_Inr by blast
  from Cons.IH [of "acc @ [mark_ok @ out]" w1]
  obtain lines where
    l1: "macro_loop reg e rest (acc @ [mark_ok @ out]) w1 =
           ((acc @ [mark_ok @ out]) @ lines, world_after reg e w1 rest)"
    and l2: "length lines = length rest"
    and l3: "\<forall>k<length rest. \<exists>out' w'.
        execute_command reg e (intent_of (rest ! k)) (get_params (rest ! k))
          (world_after reg e w1 (take k rest)) = (Inr out', w') \<and>
        lines ! k = mark_ok @ out'"
    by blast
  let ?lines = "(mark_ok @ out) # lines"
  have a: "macro_loop reg e (st # rest) acc w = (acc @ ?lines, world_after reg e w (st # rest))"
    using ex l1 by (simp add: world_after_Cons)
  have b: "length ?lines = length (st # rest)" using l2 by simp
  have c: "\<exists>out' w'.
        execute_command reg e (intent_of ((st # rest) ! k)) (get_params ((st # rest) ! k))
          (world_after reg e w (take k (st # rest))) = (Inr out', w') \<and>
        ?lines ! k = mark_ok @ out'" if "k < length (st # rest)" for k
  proof (cases k)
    case 0
    then show ?thesis using ex by (simp add: world_after_def)
  next
    case (Suc j)
    with that have "j < length rest" by simp
    with l3 show ?thesis using Suc ex by (simp add: world_after_Cons)
  qed
  from a b c show ?case by blast
qed

lemma mark_ok_not_fail: "mark_ok @ a \<noteq> mark_fail @ b"
  by (simp add: mark_ok_def mark_fail_def)

lemma demo_found:
  "map_of sample_macros (asc ''demo'') = Some (snd (hd sample_macros))"
  by (simp add: sample_macros_def)

lemma demo_loop:
  "macro_loop (COMMAND_REGISTRY 1) env_ok (macro_steps (snd (hd sample_macros))) [] [] =
     ([mark_ok @ msg_volume_mute, mark_ok @ msg_unknown_command @ asc ''fly'', mark_ok @ msg_lock],
      [Press (asc ''volumemute''),
       Run [asc ''rundll32.exe'', asc ''user32.dll,LockWorkStation'']])"
  by (simp add: sample_macros_def execute_command_def base_registry_def asc_def get_params_def
      cmd_volume_mute_def cmd_lock_def os_then_def os_do_def env_ok_def)

lemma join_concat:
  "join sep xs = (case xs of [] \<Rightarrow> [] | x # ys \<Rightarrow> x @ concat (map (\<lambda>y. sep @ y) ys))"
  by (induction sep xs rule: join.induct) simp_all

lemma steps_text_entries:
  "steps_text lines =
     (case lines of [] \<Rightarrow> []
      | l # ls \<Rightarrow> bullet_indent @ l @ concat (map (\<lambda>r. [10] @ bullet_indent @ r) ls))"
  by (cases lines) (simp_all add: steps_text_def join_concat comp_def)

text \<open>
  C4. For a macro name that is not in the macro registry \<open>execute_macro\<close> returns the
  "unknown macro" outcome and touches nothing. For a name that is there, it returns a
  report (never an exception): the heading with the macro's label, then one entry per
  step and nothing else, in step order, each entry the bullet followed by the line of
  its step, with a line break between one entry and the next. Line \<open>k\<close> is the
  dispatcher's outcome for step \<open>k\<close>, run in the world the steps before it left, and the
  world at the end is the one after all steps. The line of a step whose intent is not in
  the command registry carries the "unknown command" message, and the line of a step
  whose handler raised carries the "execution error" message; the steps after it are
  dispatched all the same.
\<close>

theorem macro_report:
  "(map_of mreg name = None \<longrightarrow>
      execute_macro mreg reg e name w = (Inr (msg_unknown_macro @ name), w)) \<and>
   (\<forall>m. map_of mreg name = Some m \<longrightarrow>
      (\<exists>lines.
         macro_loop reg e (macro_steps m) [] w = (lines, world_after reg e w (macro_steps m)) \<and>
         execute_macro mreg reg e name w =
           (Inr (msg_macro_pre @ macro_label m @ msg_macro_post @
                 (case lines of [] \<Rightarrow> []
                  | l # ls \<Rightarrow> bullet_indent @ l @
                      concat (map (\<lambda>r. [10] @ bullet_indent @ r) ls))),
            world_after reg e w (macro_steps m)) \<and>
         length lines = length (macro_steps m) \<and>
         (\<forall>k<length (macro_steps m). \<exists>out w'.
            execute_command reg e (intent_of (macro_steps m ! k)) (get_params (macro_steps m ! k))
              (world_after reg e w (take k (macro_steps m))) = (Inr out, w') \<and>
            lines ! k = mark_ok @ out \<and>
            (map_of reg (intent_of (macro_steps m ! k)) = None \<longrightarrow>
               out = msg_unknown_command @ intent_of (macro_steps m ! k)) \<and>
            (\<forall>ent x w''. map_of reg (intent_of (macro_steps m ! k)) = Some ent \<and>
               entry_handler ent e (get_params (macro_steps m ! k))
                 (world_after reg e w (take k (macro_steps m))) = (Inl x, w'') \<longrightarrow>
               out = msg_exec_error @ intent_of (macro_steps m ! k) @ asc '': '' @ exc_text x))))"
proof (intro conjI allI impI)
  assume "map_of mreg name = None"
  then show "execute_macro mreg reg e name w = (Inr (msg_unknown_macro @ name), w)"
    by (simp add: execute_macro_def)
next
  fix m
  assume found: "map_of mreg name = Some m"
  from macro_loop_char [of reg e "macro_steps m" "[]" w]
  obtain lines where
    l1: "macro_loop reg e (macro_steps m) [] w = (lines, world_after reg e w (macro_steps m))"
    and l2: "length lines = length (macro_steps m)"
    and l3: "\<forall>k<length (macro_steps m). \<exists>out w'.
        execute_command reg e (intent_of (macro_steps m ! k)) (get_params (macro_steps m ! k))
          (world_after reg e w (take k (macro_steps m))) = (Inr out, w') \<and>
        lines ! k = mark_ok @ out"
    by auto
  have "execute_macro mreg reg e name w =
           (Inr (msg_macro_pre @ macro_label m @ msg_macro_post @ steps_text lines),
            world_after reg e w (macro_steps m))"
    using found l1 by (simp add: execute_macro_def)
  then have l4: "execute_macro mreg reg e name w =
           (Inr (msg_macro_pre @ macro_label m @ msg_macro_post @
                 (case lines of [] \<Rightarrow> []
                  | l # ls \<Rightarrow> bullet_indent @ l @
                      concat (map (\<lambda>r. [10] @ bullet_indent @ r) ls))),
            world_after reg e w (macro_steps m))"
    unfolding steps_text_entries .
  have l5: "\<exists>out w'.
            execute_command reg e (intent_of (macro_steps m ! k)) (get_params (macro_steps m ! k))
              (world_after reg e w (take k (macro_steps m))) = (Inr out, w') \<and>
            lines ! k = mark_ok @ out \<and>
            (map_of reg (intent_of (macro_steps m ! k)) = None \<longrightarrow>
               out = msg_unknown_command @ intent_of (macro_steps m ! k)) \<and>
            (\<forall>ent x w''. map_of reg (intent_of (macro_steps m ! k)) = Some ent \<and>
               entry_handler ent e (get_params (macro_steps m ! k))
                 (world_after reg e w (take k (macro_steps m))) = (Inl x, w'') \<longrightarrow>
               out = msg_exec_error @ intent_of (macro_steps m ! k) @ asc '': '' @ exc_text x)"
    if "k < length (macro_steps m)" for k
  proof -
    from l3 that obtain out w' where
      o1: "execute_command reg e (intent_of (macro_steps m ! k)) (get_params (macro_steps m ! k))
              (world_after reg e w (take k (macro_steps m))) = (Inr out, w')"
      and o2: "lines ! k = mark_ok @ out" by blast
    have o3: "map_of reg (intent_of (macro_steps m ! k)) = None \<longrightarrow>
               out = msg_unknown_command @ intent_of (macro_steps m ! k)"
      using o1 by (auto simp: execute_command_def)
    have o4: "\<forall>ent x w''. map_of reg (intent_of (macro_steps m ! k)) = Some ent \<and>
               entry_handler ent e (get_params (macro_steps m ! k))
                 (world_after reg e w (take k (macro_steps m))) = (Inl x, w'') \<longrightarrow>
               out = msg_exec_error @ intent_of (macro_steps m ! k) @ asc '': '' @ exc_text x"
      using o1 by (auto simp: execute_command_def)
    show ?thesis
      by (rule exI [of _ out], rule exI [of _ w']) (intro conjI o1 o2 o3 o4)
  qed
  from l1 l2 l4 l5
  show "\<exists>lines.
         macro_loop reg e (macro_steps m) [] w = (lines, world_after reg e w (macro_steps m)) \<and>
         execute_macro mreg reg e name w =
           (Inr (msg_macro_pre @ macro_label m @ msg_macro_post @
                 (case lines of [] \<Rightarrow> []
                  | l # ls \<Rightarrow> bullet_indent @ l @
                      concat (map (\<lambda>r. [10] @ bullet_indent @ r) ls))),
            world_after reg e w (macro_steps m)) \<and>
         length lines = length (macro_steps m) \<and>
         (\<forall>k<length (macro_steps m). \<exists>out w'.
            execute_command reg e (intent_of (macro_steps m ! k)) (get_params (macro_steps m ! k))
              (world_after reg e w (take k (macro_steps m))) = (Inr out, w') \<and>
            lines ! k = mark_ok @ out \<and>
            (map_of reg (intent_of (macro_steps m ! k)) = None \<longrightarrow>
               out = msg_unknown_command @ intent_of (macro_steps m ! k)) \<and>
            (\<forall>ent x w''. map_of reg (intent_of (macro_steps m ! k)) = Some ent \<and>
               entry_handler ent e (get_params (macro_steps m ! k))
                 (world_after reg e w (take k (macro_steps m))) = (Inl x, w'') \<longrightarrow>
               out = msg_exec_error @ intent_of (macro_steps m ! k) @ asc '': '' @ exc_text x))"
    by blast
qed


theorem macro_report_witness:
  "map_of sample_macros (asc ''nope'') = None \<and>
   execute_macro sample_macros (COMMAND_REGISTRY 1) env_ok (asc ''nope'') [] =
     (Inr (msg_unknown_macro @ asc ''nope''), []) \<and>
   map_of sample_macros (asc ''demo'') = Some (snd (hd sample_macros)) \<and>
   length (macro_steps (snd (hd sample_macros))) = 3 \<and>
   map_of (COMMAND_REGISTRY 1) (intent_of (macro_steps (snd (hd sample_macros)) ! 1)) = None \<and>
   execute_macro sample_macros (COMMAND_REGISTRY 1) env_ok (asc ''demo'') [] =
     (Inr (msg_macro_pre @ asc ''Demo'' @ msg_macro_post @
           bullet_indent @ mark_ok @ msg_volume_mute @ [10] @
           bullet_indent @ mark_ok @ msg_unknown_command @ asc ''fly'' @ [10] @
           bullet_indent @ mark_ok @ msg_lock),
      [Press (asc ''volumemute''),
       Run [asc ''rundll32.exe'', asc ''user32.dll,LockWorkStation'']])"
proof -
  have a: "map_of sample_macros (asc ''nope'') = None"
    by (simp add: sample_macros_def asc_def)
  from macro_report [of sample_macros "asc ''nope''" "COMMAND_REGISTRY 1" env_ok "[]"] a
  have b: "execute_macro sample_macros (COMMAND_REGISTRY 1) env_ok (asc ''nope'') [] =
     (Inr (msg_unknown_macro @ asc ''nope''), [])" by blast
  note c = demo_found
  have d: "length (macro_steps (snd (hd sample_macros))) = 3"
    by (simp add: sample_macros_def)
  have f: "map_of (COMMAND_REGISTRY 1) (intent_of (macro_steps (snd (hd sample_macros)) ! 1)) = None"
    by (simp add: sample_macros_def base_registry_def asc_def)
  from macro_report [of sample_macros "asc ''demo''" "COMMAND_REGISTRY 1" env_ok "[]"] c
  obtain lines where
    g1: "macro_loop (COMMAND_REGISTRY 1) env_ok (macro_steps (snd (hd sample_macros))) [] [] =
          (lines, world_after (COMMAND_REGISTRY 1) env_ok [] (macro_steps (snd (hd sample_macros))))"
    and g2: "execute_macro sample_macros (COMMAND_REGISTRY 1) env_ok (asc ''demo'') [] =
           (Inr (msg_macro_pre @ macro_label (snd (hd sample_macros)) @ msg_macro_post @
                 (case lines of [] \<Rightarrow> []
                  | l # ls \<Rightarrow> bullet_indent @ l @
                      concat (map (\<lambda>r. [10] @ bullet_indent @ r) ls))),
            world_after (COMMAND_REGISTRY 1) env_ok [] (macro_steps (snd (hd sample_macros))))"
    by blast
  from g1 demo_loop have g3:
    "lines = [mark_ok @ msg_volume_mute, mark_ok @ msg_unknown_command @ asc ''fly'',
              mark_ok @ msg_lock]"
    and g4: "world_after (COMMAND_REGISTRY 1) env_ok [] (macro_steps (snd (hd sample_macros))) =
      [Press (asc ''volumemute''),
       Run [asc ''rundll32.exe'', asc ''user32.dll,LockWorkStation'']]"
    by simp_all
  have g5: "macro_label (snd (hd sample_macros)) = asc ''Demo''"
    by (simp add: sample_macros_def)
  have h:
    "execute_macro sample_macros (COMMAND_REGISTRY 1) env_ok (asc ''demo'') [] =
     (Inr (msg_macro_pre @ asc ''Demo'' @ msg_macro_post @
           bullet_indent @ mark_ok @ msg_volume_mute @ [10] @
           bullet_indent @ mark_ok @ msg_unknown_command @ asc ''fly'' @ [10] @
           bullet_indent @ mark_ok @ msg_lock),
      [Press (asc ''volumemute''),
       Run [asc ''rundll32.exe'', asc ''user32.dll,LockWorkStation'']])"
    unfolding g2 g3 g4 g5 by simp
  from a b c d f h show ?thesis by blast
qed

lemma end_work_found:
  "map_of MACRO_REGISTRY (asc ''end_work'') = Some (snd (MACRO_REGISTRY ! 1))"
  by (simp add: MACRO_REGISTRY_def asc_def)

lemma end_work_loop:
  "macro_loop (COMMAND_REGISTRY 1) env_taskkill_fails (macro_steps (snd (MACRO_REGISTRY ! 1))) [] [] =
     ([mark_ok @ msg_kill_failed @ asc ''code.exe: ERROR: not found'', mark_ok @ msg_lock],
      [Run [asc ''taskkill'', asc ''/IM'', asc ''code.exe'', asc ''/F''],
       Run [asc ''rundll32.exe'', asc ''user32.dll,LockWorkStation'']])"
  by (simp add: MACRO_REGISTRY_def execute_command_def base_registry_def asc_def get_params_def
      cmd_close_app_def cmd_lock_def os_then_def os_do_def env_taskkill_fails_def
      dict_get_def ends_with_def py_strip_def is_space_def)

lemma kill_failed_is_failure: "take 2 msg_kill_failed = mark_fail"
  by (simp add: msg_kill_failed_def mark_fail_def)

text \<open>
  C10. For every macro of the static \<open>MACRO_REGISTRY\<close>, run against \<open>COMMAND_REGISTRY\<close>:
  every line the loop of \<open>execute_macro\<close> adds is the success marker followed by an
  outcome of the dispatcher, which returned and did not raise; no line is one the
  \<open>except\<close> branch would write (the failure marker followed by the intent). A dispatcher
  outcome that is itself a failure message is marked as a success too: the witness runs
  \<open>end_work\<close> where \<open>taskkill\<close> fails.
\<close>

theorem macro_lines_marked_ok:
  assumes "map_of MACRO_REGISTRY name = Some m"
  shows "\<exists>lines w'.
     macro_loop (COMMAND_REGISTRY d) e (macro_steps m) [] w = (lines, w') \<and>
     execute_macro MACRO_REGISTRY (COMMAND_REGISTRY d) e name w =
       (Inr (msg_macro_pre @ macro_label m @ msg_macro_post @ steps_text lines), w') \<and>
     length lines = length (macro_steps m) \<and>
     (\<forall>k<length lines.
        (\<exists>out w1 w2.
           execute_command (COMMAND_REGISTRY d) e (intent_of (macro_steps m ! k))
             (get_params (macro_steps m ! k)) w1 = (Inr out, w2) \<and>
           lines ! k = mark_ok @ out) \<and>
        (\<forall>t. lines ! k \<noteq> mark_fail @ t))"
proof -
  let ?reg = "COMMAND_REGISTRY d"
  from macro_loop_char [of ?reg e "macro_steps m" "[]" w]
  obtain lines where
    l1: "macro_loop ?reg e (macro_steps m) [] w = (lines, world_after ?reg e w (macro_steps m))"
    and l2: "length lines = length (macro_steps m)"
    and l3: "\<forall>k<length (macro_steps m). \<exists>out w'.
        execute_command ?reg e (intent_of (macro_steps m ! k)) (get_params (macro_steps m ! k))
          (world_after ?reg e w (take k (macro_steps m))) = (Inr out, w') \<and>
        lines ! k = mark_ok @ out"
    by auto
  have l4: "execute_macro MACRO_REGISTRY ?reg e name w =
       (Inr (msg_macro_pre @ macro_label m @ msg_macro_post @ steps_text lines),
        world_after ?reg e w (macro_steps m))"
    using assms l1 by (simp add: execute_macro_def)
  have l5: "(\<exists>out w1 w2.
           execute_command ?reg e (intent_of (macro_steps m ! k))
             (get_params (macro_steps m ! k)) w1 = (Inr out, w2) \<and>
           lines ! k = mark_ok @ out) \<and>
        (\<forall>t. lines ! k \<noteq> mark_fail @ t)" if "k < length lines" for k
  proof -
    from that l2 l3 obtain out w' where
      o1: "execute_command ?reg e (intent_of (macro_steps m ! k)) (get_params (macro_steps m ! k))
          (world_after ?reg e w (take k (macro_steps m))) = (Inr out, w')"
      and o2: "lines ! k = mark_ok @ out" by auto
    have o3: "\<forall>t. lines ! k \<noteq> mark_fail @ t"
      using o2 mark_ok_not_fail by simp
    from o1 o2 have "\<exists>out w1 w2.
           execute_command ?reg e (intent_of (macro_steps m ! k))
             (get_params (macro_steps m ! k)) w1 = (Inr out, w2) \<and>
           lines ! k = mark_ok @ out" by blast
    with o3 show ?thesis by simp
  qed
  show ?thesis
    by (rule exI [of _ lines], rule exI [of _ "world_after ?reg e w (macro_steps m)"])
       (use l1 l2 l4 l5 in simp)
qed

theorem macro_lines_marked_ok_witness:
  "map_of MACRO_REGISTRY (asc ''end_work'') = Some (snd (MACRO_REGISTRY ! 1)) \<and>
   macro_label (snd (MACRO_REGISTRY ! 1)) = label_end_work \<and>
   take 2 msg_kill_failed = mark_fail \<and>
   execute_macro MACRO_REGISTRY (COMMAND_REGISTRY 1) env_taskkill_fails (asc ''end_work'') [] =
     (Inr (msg_macro_pre @ label_end_work @ msg_macro_post @
           steps_text [mark_ok @ msg_kill_failed @ asc ''code.exe: ERROR: not found'',
                       mark_ok @ msg_lock]),
      [Run [asc ''taskkill'', asc ''/IM'', asc ''code.exe'', asc ''/F''],
       Run [asc ''rundll32.exe'', asc ''user32.dll,LockWorkStation'']])"
proof -
  note a = end_work_found
  have b: "macro_label (snd (MACRO_REGISTRY ! 1)) = label_end_work"
    by (simp add: MACRO_REGISTRY_def)
  note c = kill_failed_is_failure
  from macro_lines_marked_ok [OF a, where d = 1 and e = env_taskkill_fails and w = "[]"]
  obtain lines w' where
    g1: "macro_loop (COMMAND_REGISTRY 1) env_taskkill_fails
           (macro_steps (snd (MACRO_REGISTRY ! 1))) [] [] = (lines, w')"
    and g2: "execute_macro MACRO_REGISTRY (COMMAND_REGISTRY 1) env_taskkill_fails
           (asc ''end_work'') [] =
       (Inr (msg_macro_pre @ macro_label (snd (MACRO_REGISTRY ! 1)) @ msg_macro_post @
             steps_text lines), w')"
    by blast
  from g1 end_work_loop have g3:
    "lines = [mark_ok @ msg_kill_failed @ asc ''code.exe: ERROR: not found'', mark_ok @ msg_lock]"
    and g4: "w' = [Run [asc ''taskkill'', asc ''/IM'', asc ''code.exe'', asc ''/F''],
       Run [asc ''rundll32.exe'', asc ''user32.dll,LockWorkStation'']]"
    by simp_all
  from g2 g3 g4 b have h:
   "execute_macro MACRO_REGISTRY (COMMAND_REGISTRY 1) env_taskkill_fails (asc ''end_work'') [] =
     (Inr (msg_macro_pre @ label_end_work @ msg_macro_post @
           steps_text [mark_ok @ msg_kill_failed @ asc ''code.exe: ERROR: not found'',
                       mark_ok @ msg_lock]),
      [Run [asc ''taskkill'', asc ''/IM'', asc ''code.exe'', asc ''/F''],
       Run [asc ''rundll32.exe'', asc ''user32.dll,LockWorkStation'']])"
    by simp
  from a b c h show ?thesis by blast
qed

section \<open>The due-reminder query\<close>

lemma pending_set:
  "set (get_pending_reminders now rows) = {r \<in> set rows. \<not> fired r \<and> remind_at r \<le> now}"
  by (simp add: get_pending_reminders_def)

lemma pending_sorted: "sorted (map remind_at (get_pending_reminders now rows))"
  by (simp add: get_pending_reminders_def)

lemma sorted_strict_index:
  assumes "sorted (map f xs)" "i < length xs" "j < length xs" "f (xs ! i) < f (xs ! j)"
  shows "i < j"
proof (rule ccontr)
  assume "\<not> i < j"
  then have "j \<le> i" by simp
  with assms(1,2) have "map f xs ! j \<le> map f xs ! i"
    by (simp add: sorted_iff_nth_mono)
  with assms(2,3) have "f (xs ! j) \<le> f (xs ! i)" by simp
  with assms(4) show False by simp
qed

lemma sample_pending:
  "get_pending_reminders 7 sample_rows = [sample_rows ! 1, sample_rows ! 0]"
  by (simp add: get_pending_reminders_def sample_rows_def)

text \<open>
  C5. \<open>get_pending_reminders\<close> returns exactly the rows with \<open>fired\<close> false and
  \<open>remind_at <= now\<close>, each as often as the table holds it, in ascending order of
  \<open>remind_at\<close>: of two rows of the result, the one with the strictly earlier time stands
  first. A row with \<open>remind_at > now\<close> is never in the result, nor is a fired row.
\<close>

theorem due_query:
  "mset (get_pending_reminders now rows) =
     filter_mset (\<lambda>r. \<not> fired r \<and> remind_at r \<le> now) (mset rows) \<and>
   sorted (map remind_at (get_pending_reminders now rows)) \<and>
   (\<forall>i j. i < length (get_pending_reminders now rows) \<and>
          j < length (get_pending_reminders now rows) \<and>
          remind_at (get_pending_reminders now rows ! i) <
            remind_at (get_pending_reminders now rows ! j) \<longrightarrow> i < j) \<and>
   (\<forall>r. now < remind_at r \<longrightarrow> r \<notin> set (get_pending_reminders now rows)) \<and>
   (\<forall>r. fired r \<longrightarrow> r \<notin> set (get_pending_reminders now rows))"
proof (intro conjI allI impI)
  show "mset (get_pending_reminders now rows) =
     filter_mset (\<lambda>r. \<not> fired r \<and> remind_at r \<le> now) (mset rows)"
    by (simp add: get_pending_reminders_def)
next
  show "sorted (map remind_at (get_pending_reminders now rows))"
    by (rule pending_sorted)
next
  fix i j
  assume "i < length (get_pending_reminders now rows) \<and>
          j < length (get_pending_reminders now rows) \<and>
          remind_at (get_pending_reminders now rows ! i) <
            remind_at (get_pending_reminders now rows ! j)"
  then show "i < j"
    using sorted_strict_index [OF pending_sorted, of i now rows j] by blast
next
  fix r :: "'a reminder"
  assume "now < remind_at r"
  then show "r \<notin> set (get_pending_reminders now rows)"
    by (auto simp: pending_set)
next
  fix r :: "'a reminder"
  assume "fired r"
  then show "r \<notin> set (get_pending_reminders now rows)"
    by (simp add: pending_set)
qed

theorem due_query_witness:
  "get_pending_reminders 7 sample_rows = [sample_rows ! 1, sample_rows ! 0] \<and>
   (0::nat) < length (get_pending_reminders 7 sample_rows) \<and>
   (1::nat) < length (get_pending_reminders 7 sample_rows) \<and>
   remind_at (get_pending_reminders 7 sample_rows ! 0) <
     remind_at (get_pending_reminders 7 sample_rows ! 1) \<and>
   (0::nat) < 1 \<and>
   (7::nat) < remind_at (sample_rows ! 2) \<and>
   sample_rows ! 2 \<notin> set (get_pending_reminders 7 sample_rows) \<and>
   fired (sample_rows ! 3) \<and>
   sample_rows ! 3 \<notin> set (get_pending_reminders 7 sample_rows)"
proof -
  note a = sample_pending
  have b: "(7::nat) < remind_at (sample_rows ! 2)" by (simp add: sample_rows_def)
  have c: "fired (sample_rows ! 3)" by (simp add: sample_rows_def)
  from due_query [of 7 sample_rows] b
  have d: "sample_rows ! 2 \<notin> set (get_pending_reminders 7 sample_rows)" by blast
  from due_query [of 7 sample_rows] c
  have f: "sample_rows ! 3 \<notin> set (get_pending_reminders 7 sample_rows)" by blast
  have g: "remind_at (get_pending_reminders 7 sample_rows ! 0) <
     remind_at (get_pending_reminders 7 sample_rows ! 1)"
    by (simp add: a) (simp add: sample_rows_def)
  from a b c d f g show ?thesis by simp
qed

section \<open>The reminder poll\<close>

lemma process_reminder_reminders:
  "reminders (process_reminder c r s) =
     (if fires c (sched_bot s) r then mark_reminder_fired (reminder_id r) (reminders s)
      else reminders s)"
  by (auto simp: process_reminder_def mark_step_def fires_def Let_def split: option.splits)

lemma process_reminder_bot: "sched_bot (process_reminder c r s) = sched_bot s"
  by (auto simp: process_reminder_def mark_step_def Let_def split: option.splits)

lemma process_reminder_attempted:
  "attempted (process_reminder c r s) =
     attempted s @ (if sched_bot s = None then [] else [msg_of r])"
  by (auto simp: process_reminder_def mark_step_def msg_of_def Let_def split: option.splits)

lemma process_reminder_delivered:
  "delivered (process_reminder c r s) =
     delivered s @ (if sched_bot s \<noteq> None \<and> send_fails c r = None then [msg_of r] else [])"
  by (auto simp: process_reminder_def mark_step_def msg_of_def Let_def split: option.splits)

lemma poll_loop_bot: "sched_bot (poll_loop c ps s) = sched_bot s"
  by (induction ps arbitrary: s) (simp_all add: process_reminder_bot)

lemma poll_loop_attempted:
  "attempted (poll_loop c ps s) = attempted s @ (if sched_bot s = None then [] else map msg_of ps)"
  by (induction ps arbitrary: s) (simp_all add: process_reminder_attempted process_reminder_bot)

lemma poll_loop_delivered:
  "delivered (poll_loop c ps s) =
     delivered s @ (if sched_bot s = None then [] else map msg_of (filter (\<lambda>p. send_fails c p = None) ps))"
  by (induction ps arbitrary: s) (simp_all add: process_reminder_delivered process_reminder_bot)

lemma mark_all_mark:
  "mark_all A (mark_reminder_fired i rows) = mark_all (insert i A) rows"
  by (auto simp: mark_all_def mark_reminder_fired_def)

lemma poll_loop_reminders:
  "reminders (poll_loop c ps s) =
     mark_all (reminder_id ` {p \<in> set ps. fires c (sched_bot s) p}) (reminders s)"
proof (induction ps arbitrary: s)
  case Nil
  show ?case by (simp add: mark_all_def)
next
  case (Cons r ps)
  have eq: "{p \<in> set (r # ps). fires c (sched_bot s) p} =
      (if fires c (sched_bot s) r then insert r {p \<in> set ps. fires c (sched_bot s) p}
       else {p \<in> set ps. fires c (sched_bot s) p})"
    by auto
  show ?case
    by (simp add: Cons.IH process_reminder_bot process_reminder_reminders mark_all_mark eq
        del: set_simps)
qed

lemma distinct_ids_eq:
  assumes "distinct (map reminder_id rows)" "x \<in> set rows" "y \<in> set rows"
    "reminder_id x = reminder_id y"
  shows "x = y"
  using assms by (auto simp: distinct_map inj_on_def)

lemma check_reminders_reminders:
  assumes "distinct (map reminder_id (reminders s))" "query_fails c = None"
  shows "reminders (check_reminders c now s) =
     map (\<lambda>r. if due now r \<and> fires c (sched_bot s) r then r\<lparr>fired := True\<rparr> else r) (reminders s)"
proof -
  have "reminders (check_reminders c now s) =
      mark_all (reminder_id ` {p \<in> set (get_pending_reminders now (reminders s)). fires c (sched_bot s) p})
        (reminders s)"
    using assms(2) by (simp add: check_reminders_def poll_loop_reminders)
  also have "\<dots> = map (\<lambda>r. if due now r \<and> fires c (sched_bot s) r then r\<lparr>fired := True\<rparr> else r)
      (reminders s)"
    unfolding mark_all_def
  proof (rule map_cong [OF refl])
    fix x
    assume x: "x \<in> set (reminders s)"
    have "reminder_id x \<in> reminder_id ` {p \<in> set (get_pending_reminders now (reminders s)).
              fires c (sched_bot s) p} \<longleftrightarrow> due now x \<and> fires c (sched_bot s) x"
      using x distinct_ids_eq [OF assms(1)] by (auto simp: pending_set due_def)
    then show "(if reminder_id x \<in> reminder_id ` {p \<in> set (get_pending_reminders now (reminders s)).
              fires c (sched_bot s) p} then x\<lparr>fired := True\<rparr> else x) =
          (if due now x \<and> fires c (sched_bot s) x then x\<lparr>fired := True\<rparr> else x)"
      by simp
  qed
  finally show ?thesis .
qed

lemma check_reminders_attempted:
  assumes "query_fails c = None"
  shows "attempted (check_reminders c now s) =
     attempted s @ (if sched_bot s = None then [] else map msg_of (get_pending_reminders now (reminders s)))"
  using assms by (simp add: check_reminders_def poll_loop_attempted)

lemma check_reminders_delivered:
  assumes "query_fails c = None"
  shows "delivered (check_reminders c now s) =
     delivered s @ (if sched_bot s = None then []
        else map msg_of (filter (\<lambda>p. send_fails c p = None) (get_pending_reminders now (reminders s))))"
  using assms by (simp add: check_reminders_def poll_loop_delivered)

lemma check_reminders_bot: "sched_bot (check_reminders c now s) = sched_bot s"
  by (simp add: check_reminders_def poll_loop_bot split: option.splits)

lemma sample_rows_distinct: "distinct (map reminder_id sample_rows)"
  by (simp add: sample_rows_def)

lemma sample_started:
  "reminders (start_scheduler (idle_state sample_rows)) = sample_rows \<and>
   sched_bot (start_scheduler (idle_state sample_rows)) = Some () \<and>
   attempted (start_scheduler (idle_state sample_rows)) = [] \<and>
   delivered (start_scheduler (idle_state sample_rows)) = []"
  by (simp add: start_scheduler_def idle_state_def)

section \<open>Fired reminders stay fired\<close>

lemma fold_max_ge: "a \<le> fold max xs (a::nat)"
  by (induction xs arbitrary: a) (auto intro: order_trans [OF max.cobounded2])

lemma fold_max_mem: "x \<in> set xs \<Longrightarrow> x \<le> fold max xs (a::nat)"
proof (induction xs arbitrary: a)
  case Nil
  then show ?case by simp
next
  case (Cons y ys)
  show ?case
  proof (cases "x = y")
    case True
    have "y \<le> max y a" by simp
    also have "\<dots> \<le> fold max ys (max y a)" by (rule fold_max_ge)
    finally show ?thesis using True by simp
  next
    case False
    with Cons.prems have "x \<in> set ys" by simp
    then show ?thesis by (simp add: Cons.IH)
  qed
qed

lemma next_id_fresh: "next_id rows \<notin> set (map reminder_id rows)"
proof
  assume "next_id rows \<in> set (map reminder_id rows)"
  then have "next_id rows \<le> fold max (map reminder_id rows) 0" by (rule fold_max_mem)
  then show False by (simp add: next_id_def)
qed

lemma mark_all_ids: "map reminder_id (mark_all A rows) = map reminder_id rows"
  by (simp add: mark_all_def)

lemma mark_all_keeps_fired:
  assumes "r \<in> set rows" "fired r"
  shows "\<exists>r' \<in> set (mark_all A rows). reminder_id r' = reminder_id r \<and> fired r'"
proof (cases "reminder_id r \<in> A")
  case True
  with assms(1) have "r\<lparr>fired := True\<rparr> \<in> set (mark_all A rows)"
    by (auto simp: mark_all_def image_iff intro!: bexI [of _ r])
  then show ?thesis by (intro bexI [of _ "r\<lparr>fired := True\<rparr>"]) simp_all
next
  case False
  with assms(1) have "r \<in> set (mark_all A rows)"
    by (auto simp: mark_all_def image_iff intro!: bexI [of _ r])
  with assms(2) show ?thesis by (intro bexI [of _ r]) simp_all
qed

lemma stays_fired_not_pending:
  assumes "stays_fired i s" "r \<in> set (get_pending_reminders now (reminders s))"
  shows "reminder_id r \<noteq> i"
proof
  assume eq: "reminder_id r = i"
  from assms(1) obtain r' where r': "r' \<in> set (reminders s)" "reminder_id r' = i" "fired r'"
    and dist: "distinct (map reminder_id (reminders s))"
    by (auto simp: stays_fired_def)
  from assms(2) have r: "r \<in> set (reminders s)" "\<not> fired r" by (auto simp: pending_set)
  from distinct_ids_eq [OF dist r(1) r'(1)] eq r'(2) have "r = r'" by simp
  with r(2) r'(3) show False by simp
qed

lemma stays_fired_poll_loop:
  assumes "stays_fired i s"
  shows "stays_fired i (poll_loop c ps s)"
proof -
  from assms obtain r where r: "r \<in> set (reminders s)" "reminder_id r = i" "fired r"
    and dist: "distinct (map reminder_id (reminders s))"
    by (auto simp: stays_fired_def)
  from mark_all_keeps_fired [OF r(1) r(3)] r(2) dist show ?thesis
    by (simp add: stays_fired_def poll_loop_reminders mark_all_ids)
qed

lemma stays_fired_apply_op:
  assumes "stays_fired i s"
  shows "stays_fired i (apply_op s op) \<and>
         (\<exists>new. attempted (apply_op s op) = attempted s @ new \<and> i \<notin> fst ` set new)"
proof (cases op)
  case (Save stamp u body t)
  from assms obtain r where r: "r \<in> set (reminders s)" "reminder_id r = i" "fired r"
    and dist: "distinct (map reminder_id (reminders s))"
    by (auto simp: stays_fired_def)
  have "stays_fired i (apply_op s op)"
    unfolding stays_fired_def using Save r dist next_id_fresh [of "reminders s"]
    by (auto simp: save_reminder_def)
  moreover have "attempted (apply_op s op) = attempted s @ []" using Save by simp
  ultimately show ?thesis by (intro conjI exI [of _ "[]"]) simp_all
next
  case (Poll c now)
  show ?thesis
  proof (cases "query_fails c")
    case (Some x)
    then have "apply_op s op = s" using Poll by (simp add: check_reminders_def)
    with assms show ?thesis by (intro conjI exI [of _ "[]"]) simp_all
  next
    case None
    let ?new = "if sched_bot s = None then [] else map msg_of (get_pending_reminders now (reminders s))"
    have a: "stays_fired i (apply_op s op)"
      using Poll None stays_fired_poll_loop [OF assms] by (simp add: check_reminders_def)
    have b: "attempted (apply_op s op) = attempted s @ ?new"
      using Poll check_reminders_attempted [OF None] by simp
    have c: "i \<notin> fst ` set ?new"
    proof
      assume "i \<in> fst ` set ?new"
      then obtain p where "p \<in> set (get_pending_reminders now (reminders s))"
        and "reminder_id p = i"
        by (auto simp: msg_of_def split: if_splits)
      with stays_fired_not_pending [OF assms] show False by blast
    qed
    from a b c show ?thesis by blast
  qed
qed

lemma stays_fired_run_ops:
  assumes "stays_fired i s"
  shows "stays_fired i (run_ops s ops) \<and>
         (\<exists>new. attempted (run_ops s ops) = attempted s @ new \<and> i \<notin> fst ` set new)"
  using assms
proof (induction ops arbitrary: s)
  case Nil
  then show ?case by (simp add: run_ops_def)
next
  case (Cons op ops)
  from stays_fired_apply_op [OF Cons.prems, of op]
  obtain new1 where a: "stays_fired i (apply_op s op)"
    and b: "attempted (apply_op s op) = attempted s @ new1" "i \<notin> fst ` set new1"
    by blast
  from Cons.IH [OF a]
  obtain new2 where c: "stays_fired i (run_ops (apply_op s op) ops)"
    and d: "attempted (run_ops (apply_op s op) ops) = attempted (apply_op s op) @ new2"
      "i \<notin> fst ` set new2"
    by blast
  have e: "run_ops s (op # ops) = run_ops (apply_op s op) ops" by (simp add: run_ops_def)
  have "attempted (run_ops s (op # ops)) = attempted s @ (new1 @ new2)"
    using b(1) d(1) e by simp
  moreover have "i \<notin> fst ` set (new1 @ new2)" using b(2) d(2) by auto
  ultimately show ?case using c e by metis
qed

lemma chan_ok_query: "query_fails chan_ok = None"
  by (simp add: chan_ok_def)

lemma after_first_poll_rows:
  "reminders after_first_poll =
     [\<lparr>reminder_id = 1, user_id = 7, reminder_text = asc ''tea'', remind_at = 5, created_at = 1, fired = True\<rparr>,
      \<lparr>reminder_id = 2, user_id = 7, reminder_text = asc ''call'', remind_at = 3, created_at = 1, fired = True\<rparr>,
      \<lparr>reminder_id = 3, user_id = 7, reminder_text = asc ''walk'', remind_at = 9, created_at = 2, fired = False\<rparr>,
      \<lparr>reminder_id = 4, user_id = 7, reminder_text = asc ''mail'', remind_at = 2, created_at = 2, fired = True\<rparr>]"
proof -
  have d: "distinct (map reminder_id (reminders (start_scheduler (idle_state sample_rows))))"
    using sample_rows_distinct by (simp add: sample_started)
  show ?thesis
    unfolding after_first_poll_def check_reminders_reminders [OF d chan_ok_query]
    by (simp add: sample_started) (simp add: sample_rows_def due_def fires_def chan_ok_def)
qed

lemma after_first_poll_logs:
  "sched_bot after_first_poll = Some () \<and>
   attempted after_first_poll = [msg_of (sample_rows ! 1), msg_of (sample_rows ! 0)] \<and>
   delivered after_first_poll = [msg_of (sample_rows ! 1), msg_of (sample_rows ! 0)]"
  unfolding after_first_poll_def check_reminders_bot
    check_reminders_attempted [OF chan_ok_query] check_reminders_delivered [OF chan_ok_query]
  by (simp add: sample_started sample_pending) (simp add: chan_ok_def)

lemma sample_ops_attempted:
  "attempted (run_ops after_first_poll sample_ops) =
     attempted after_first_poll @
     [(3, 7, msg_reminder @ asc ''walk''), (5, 7, msg_reminder @ asc ''nap'')]"
proof -
  let ?s2 = "check_reminders chan_ok 8 after_first_poll"
  let ?s3 = "?s2\<lparr>reminders := snd (save_reminder 8 7 (asc ''nap'') 9 (reminders ?s2))\<rparr>"
  let ?s4 = "check_reminders chan_ok 20 ?s3"
  have run: "run_ops after_first_poll sample_ops = ?s4"
    by (simp add: run_ops_def sample_ops_def)
  have d1: "distinct (map reminder_id (reminders after_first_poll))"
    by (simp add: after_first_poll_rows)
  have p1: "get_pending_reminders 8 (reminders after_first_poll) = []"
    by (simp add: after_first_poll_rows get_pending_reminders_def)
  have r2: "reminders ?s2 = reminders after_first_poll"
    unfolding check_reminders_reminders [OF d1 chan_ok_query]
    by (simp add: after_first_poll_rows due_def)
  have a2: "attempted ?s2 = attempted after_first_poll"
    unfolding check_reminders_attempted [OF chan_ok_query] by (simp add: p1)
  have b3: "sched_bot ?s3 = Some ()"
    by (simp add: check_reminders_bot after_first_poll_logs)
  have a3: "attempted ?s3 = attempted after_first_poll" using a2 by simp
  have r3: "reminders ?s3 = reminders after_first_poll @
      [\<lparr>reminder_id = 5, user_id = 7, reminder_text = asc ''nap'', remind_at = 9,
        created_at = 8, fired = False\<rparr>]"
    by (simp add: r2 save_reminder_def next_id_def after_first_poll_rows)
  have p3: "map msg_of (get_pending_reminders 20 (reminders ?s3)) =
      [(3, 7, msg_reminder @ asc ''walk''), (5, 7, msg_reminder @ asc ''nap'')]"
    unfolding r3 by (simp add: after_first_poll_rows get_pending_reminders_def msg_of_def)
  have "attempted ?s4 = attempted ?s3 @ map msg_of (get_pending_reminders 20 (reminders ?s3))"
    unfolding check_reminders_attempted [OF chan_ok_query] using b3 by simp
  then show ?thesis unfolding run p3 a3 .
qed

text \<open>
  C6. In a table without repeated ids, take a reminder \<open>R\<close> that is fired (as it is after
  the poll that delivered it) and let the program go on in any way: saving reminders,
  polling at any times over any channel. The row of \<open>R\<close> is still there and still fired,
  so \<open>fired\<close> is never reset; \<open>R\<close> is in no due-check result at any time; and none of the
  delivery attempts made from then on is for \<open>R\<close>.
\<close>

theorem fired_never_redelivered:
  assumes "distinct (map reminder_id (reminders s))"
    and "R \<in> set (reminders s)"
    and "fired R"
  shows "(\<exists>R' \<in> set (reminders (run_ops s ops)). reminder_id R' = reminder_id R \<and> fired R') \<and>
         (\<forall>now. \<forall>r \<in> set (get_pending_reminders now (reminders (run_ops s ops))).
            reminder_id r \<noteq> reminder_id R) \<and>
         (\<exists>new. attempted (run_ops s ops) = attempted s @ new \<and> reminder_id R \<notin> fst ` set new)"
proof -
  from assms have "stays_fired (reminder_id R) s" by (auto simp: stays_fired_def)
  from stays_fired_run_ops [OF this, of ops]
  have a: "stays_fired (reminder_id R) (run_ops s ops)"
    and b: "\<exists>new. attempted (run_ops s ops) = attempted s @ new \<and> reminder_id R \<notin> fst ` set new"
    by blast+
  from a have c: "\<exists>R' \<in> set (reminders (run_ops s ops)). reminder_id R' = reminder_id R \<and> fired R'"
    by (simp add: stays_fired_def)
  from a have d: "\<forall>now. \<forall>r \<in> set (get_pending_reminders now (reminders (run_ops s ops))).
            reminder_id r \<noteq> reminder_id R"
    using stays_fired_not_pending by blast
  from c d b show ?thesis by blast
qed

theorem fired_never_redelivered_witness:
  "distinct (map reminder_id (reminders after_first_poll)) \<and>
   (sample_rows ! 0)\<lparr>fired := True\<rparr> \<in> set (reminders after_first_poll) \<and>
   fired ((sample_rows ! 0)\<lparr>fired := True\<rparr>) \<and>
   msg_of (sample_rows ! 0) \<in> set (delivered after_first_poll) \<and>
   (\<exists>R' \<in> set (reminders (run_ops after_first_poll sample_ops)).
      reminder_id R' = 1 \<and> fired R') \<and>
   1 \<notin> reminder_id ` set (get_pending_reminders 100
                                (reminders (run_ops after_first_poll sample_ops))) \<and>
   attempted (run_ops after_first_poll sample_ops) =
     attempted after_first_poll @
     [(3, 7, msg_reminder @ asc ''walk''), (5, 7, msg_reminder @ asc ''nap'')]"
proof -
  have h1: "distinct (map reminder_id (reminders after_first_poll))"
    by (simp add: after_first_poll_rows)
  have h2: "(sample_rows ! 0)\<lparr>fired := True\<rparr> \<in> set (reminders after_first_poll)"
    by (simp add: after_first_poll_rows sample_rows_def)
  have h3: "fired ((sample_rows ! 0)\<lparr>fired := True\<rparr>)" by simp
  have h4: "msg_of (sample_rows ! 0) \<in> set (delivered after_first_poll)"
    by (simp add: after_first_poll_logs)
  have i: "reminder_id ((sample_rows ! 0)\<lparr>fired := True\<rparr>) = 1"
    by (simp add: sample_rows_def)
  note t = fired_never_redelivered [OF h1 h2 h3, of sample_ops, unfolded i]
  from t have a: "\<exists>R' \<in> set (reminders (run_ops after_first_poll sample_ops)).
      reminder_id R' = 1 \<and> fired R'" by blast
  from t have q: "\<forall>now. \<forall>r \<in> set (get_pending_reminders now
        (reminders (run_ops after_first_poll sample_ops))). reminder_id r \<noteq> 1"
    by blast
  have b: "1 \<notin> reminder_id ` set (get_pending_reminders 100
        (reminders (run_ops after_first_poll sample_ops)))"
  proof
    assume "1 \<in> reminder_id ` set (get_pending_reminders 100
        (reminders (run_ops after_first_poll sample_ops)))"
    then obtain r where "r \<in> set (get_pending_reminders 100
        (reminders (run_ops after_first_poll sample_ops)))" and "reminder_id r = 1"
      by (auto simp: image_iff)
    with q show False by blast
  qed
  note c = sample_ops_attempted
  from h1 h2 h3 h4 a b c show ?thesis by blast
qed

section \<open>The reminder poll in a running scheduler\<close>

lemma apply_op_bot: "sched_bot (apply_op s op) = sched_bot s"
  by (cases op) (simp_all add: check_reminders_bot)

lemma run_ops_bot: "sched_bot (run_ops s ops) = sched_bot s"
  unfolding run_ops_def by (induction ops arbitrary: s) (simp_all add: apply_op_bot)

lemma apply_op_distinct:
  assumes "distinct (map reminder_id (reminders s))"
  shows "distinct (map reminder_id (reminders (apply_op s op)))"
proof (cases op)
  case (Save stamp u body t)
  with assms next_id_fresh [of "reminders s"] show ?thesis
    by (simp add: save_reminder_def)
next
  case (Poll c now)
  with assms show ?thesis
    by (simp add: check_reminders_def poll_loop_reminders mark_all_ids split: option.splits)
qed

lemma run_ops_distinct:
  "distinct (map reminder_id (reminders s)) \<Longrightarrow>
   distinct (map reminder_id (reminders (run_ops s ops)))"
  unfolding run_ops_def by (induction ops arbitrary: s) (simp_all add: apply_op_distinct)

lemma check_reminders_query_fails: "query_fails c \<noteq> None \<Longrightarrow> check_reminders c now s = s"
  by (auto simp: check_reminders_def)

lemma check_reminders_started:
  assumes "distinct (map reminder_id (reminders s))" "sched_bot s \<noteq> None"
  shows "reminders (check_reminders c now s) =
     map (\<lambda>r. if due now r \<and> query_fails c = None \<and> send_fails c r = None \<and>
                  mark_fails c (reminder_id r) = None
               then r\<lparr>fired := True\<rparr> else r) (reminders s)"
proof (cases "query_fails c")
  case None
  with assms show ?thesis by (simp add: check_reminders_reminders fires_def)
next
  case (Some x)
  then show ?thesis by (simp add: check_reminders_query_fails map_idI)
qed

text \<open>
  C7. Take the scheduler once \<open>start_scheduler\<close> has run, over a table without repeated
  ids, after any saves and polls, and let it poll at \<open>now\<close>; the due reminders of the
  poll are the rows its query returns.
  When the query returns, delivery is attempted for every due reminder, in the order of
  the query, whether or not the sending or the update of another reminder raised; the
  delivered ones are those whose sending did not raise. When the query raises, the poll
  changes nothing.
  \<open>fired\<close> is set on exactly the due rows whose sending and whose update did not raise,
  and every other row is left as it was; so a row that the poll turns to fired was due
  and its message was delivered in this poll.
  A due reminder whose sending raised keeps \<open>fired\<close> false: it is in the result of the
  due query at every later time, and the next poll whose query returns attempts its
  delivery again.
\<close>

theorem poll_delivers:
  assumes "distinct (map reminder_id (reminders s0))"
    and "S = run_ops (start_scheduler s0) ops"
  shows "(query_fails c = None \<longrightarrow>
            attempted (check_reminders c now S) =
              attempted S @ map msg_of (get_pending_reminders now (reminders S)) \<and>
            delivered (check_reminders c now S) =
              delivered S @ map msg_of (filter (\<lambda>p. send_fails c p = None)
                                          (get_pending_reminders now (reminders S)))) \<and>
         (query_fails c \<noteq> None \<longrightarrow> check_reminders c now S = S) \<and>
         reminders (check_reminders c now S) =
           map (\<lambda>r. if due now r \<and> query_fails c = None \<and> send_fails c r = None \<and>
                        mark_fails c (reminder_id r) = None
                     then r\<lparr>fired := True\<rparr> else r) (reminders S) \<and>
         (\<forall>k<length (reminders S).
            \<not> fired (reminders S ! k) \<and> fired (reminders (check_reminders c now S) ! k) \<longrightarrow>
            due now (reminders S ! k) \<and> send_fails c (reminders S ! k) = None \<and>
            msg_of (reminders S ! k) \<in>
              set (drop (length (delivered S)) (delivered (check_reminders c now S)))) \<and>
         (\<forall>r later. r \<in> set (reminders S) \<and> due now r \<and> send_fails c r \<noteq> None \<and>
              now \<le> later \<longrightarrow>
            r \<in> set (get_pending_reminders later (reminders (check_reminders c now S))) \<and>
            (\<forall>c'. query_fails c' = None \<longrightarrow>
               msg_of r \<in> set (drop (length (attempted (check_reminders c now S)))
                                  (attempted (check_reminders c' later
                                                (check_reminders c now S))))))"
proof -
  let ?S' = "check_reminders c now S"
  have bot: "sched_bot S \<noteq> None"
    unfolding assms(2) by (simp add: run_ops_bot start_scheduler_def)
  have "distinct (map reminder_id (reminders (start_scheduler s0)))"
    using assms(1) by (simp add: start_scheduler_def)
  then have dist: "distinct (map reminder_id (reminders S))"
    unfolding assms(2) by (rule run_ops_distinct)
  have bot': "sched_bot ?S' \<noteq> None" using bot by (simp add: check_reminders_bot)
  have a: "query_fails c = None \<longrightarrow>
            attempted ?S' = attempted S @ map msg_of (get_pending_reminders now (reminders S)) \<and>
            delivered ?S' =
              delivered S @ map msg_of (filter (\<lambda>p. send_fails c p = None)
                                          (get_pending_reminders now (reminders S)))"
    using bot by (simp add: check_reminders_attempted check_reminders_delivered)
  have b: "query_fails c \<noteq> None \<longrightarrow> ?S' = S"
    by (simp add: check_reminders_query_fails)
  note c = check_reminders_started [OF dist bot, of c now]
  have d: "due now (reminders S ! k) \<and> send_fails c (reminders S ! k) = None \<and>
      msg_of (reminders S ! k) \<in> set (drop (length (delivered S)) (delivered ?S'))"
    if k: "k < length (reminders S)"
      and f: "\<not> fired (reminders S ! k) \<and> fired (reminders ?S' ! k)" for k
  proof -
    let ?r = "reminders S ! k"
    from k f have g: "due now ?r \<and> query_fails c = None \<and> send_fails c ?r = None"
      unfolding c by (auto split: if_splits)
    then have "?r \<in> set (filter (\<lambda>p. send_fails c p = None)
        (get_pending_reminders now (reminders S)))"
      using k by (simp add: pending_set due_def)
    then have "msg_of ?r \<in> set (drop (length (delivered S)) (delivered ?S'))"
      using a g by simp
    with g show ?thesis by simp
  qed
  have r: "r \<in> set (get_pending_reminders later (reminders ?S')) \<and>
      (\<forall>c'. query_fails c' = None \<longrightarrow>
         msg_of r \<in> set (drop (length (attempted ?S')) (attempted (check_reminders c' later ?S'))))"
    if h: "r \<in> set (reminders S) \<and> due now r \<and> send_fails c r \<noteq> None \<and> now \<le> later"
    for r later
  proof -
    from h have "r \<in> set (reminders ?S')"
      unfolding c by (auto simp: image_iff intro!: bexI [of _ r])
    moreover from h have "\<not> fired r \<and> remind_at r \<le> later"
      by (auto simp: due_def)
    ultimately have p: "r \<in> set (get_pending_reminders later (reminders ?S'))"
      by (simp add: pending_set)
    have "msg_of r \<in> set (drop (length (attempted ?S')) (attempted (check_reminders c' later ?S')))"
      if "query_fails c' = None" for c'
      using that bot' p by (simp add: check_reminders_attempted)
    with p show ?thesis by blast
  qed
  from a b c d r show ?thesis by blast
qed

theorem poll_delivers_witness:
  "distinct (map reminder_id (reminders (idle_state sample_rows))) \<and>
   query_fails chan_second_fails = None \<and>
   attempted (check_reminders chan_second_fails 7
      (run_ops (start_scheduler (idle_state sample_rows)) [])) =
     [msg_of (sample_rows ! 1), msg_of (sample_rows ! 0)] \<and>
   delivered (check_reminders chan_second_fails 7
      (run_ops (start_scheduler (idle_state sample_rows)) [])) =
     [msg_of (sample_rows ! 0)] \<and>
   map fired (reminders (check_reminders chan_second_fails 7
      (run_ops (start_scheduler (idle_state sample_rows)) []))) = [True, False, False, True] \<and>
   sample_rows ! 1 \<in> set (reminders (run_ops (start_scheduler (idle_state sample_rows)) [])) \<and>
   due 7 (sample_rows ! 1) \<and>
   send_fails chan_second_fails (sample_rows ! 1) \<noteq> None \<and> (7::nat) \<le> 8 \<and>
   sample_rows ! 1 \<in> set (get_pending_reminders 8 (reminders
      (check_reminders chan_second_fails 7
         (run_ops (start_scheduler (idle_state sample_rows)) [])))) \<and>
   query_fails chan_ok = None \<and>
   msg_of (sample_rows ! 1) \<in> set (drop 2 (attempted (check_reminders chan_ok 8
      (check_reminders chan_second_fails 7
         (run_ops (start_scheduler (idle_state sample_rows)) [])))))"
proof -
  let ?s = "start_scheduler (idle_state sample_rows)"
  let ?S = "run_ops ?s []"
  let ?S' = "check_reminders chan_second_fails 7 ?S"
  have S: "?S = ?s" by (simp add: run_ops_def)
  have h1: "distinct (map reminder_id (reminders (idle_state sample_rows)))"
    using sample_rows_distinct by (simp add: idle_state_def)
  have h3: "query_fails chan_second_fails = None" by (simp add: chan_second_fails_def)
  note t = poll_delivers [where ops = "[]" and c = chan_second_fails and now = 7, OF h1 refl]
  from t h3 have t1: "attempted ?S' =
        attempted ?S @ map msg_of (get_pending_reminders 7 (reminders ?S))"
    and t2: "delivered ?S' =
        delivered ?S @ map msg_of (filter (\<lambda>p. send_fails chan_second_fails p = None)
                                     (get_pending_reminders 7 (reminders ?S)))"
    by blast+
  from t have t3: "reminders ?S' =
        map (\<lambda>r. if due 7 r \<and> query_fails chan_second_fails = None \<and>
                     send_fails chan_second_fails r = None \<and>
                     mark_fails chan_second_fails (reminder_id r) = None
                  then r\<lparr>fired := True\<rparr> else r) (reminders ?S)"
    by blast
  from t have t4: "\<forall>r later. r \<in> set (reminders ?S) \<and> due 7 r \<and>
        send_fails chan_second_fails r \<noteq> None \<and> 7 \<le> later \<longrightarrow>
      r \<in> set (get_pending_reminders later (reminders ?S')) \<and>
      (\<forall>c'. query_fails c' = None \<longrightarrow>
         msg_of r \<in> set (drop (length (attempted ?S'))
                            (attempted (check_reminders c' later ?S'))))"
    by blast
  have a: "attempted ?S' = [msg_of (sample_rows ! 1), msg_of (sample_rows ! 0)]"
    using t1 unfolding S by (simp add: sample_started sample_pending)
  have b: "delivered ?S' = [msg_of (sample_rows ! 0)]"
    using t2 unfolding S by (simp add: sample_started sample_pending)
       (simp add: chan_second_fails_def sample_rows_def)
  have c: "map fired (reminders ?S') = [True, False, False, True]"
    using t3 unfolding S by (simp add: sample_started)
       (simp add: chan_second_fails_def sample_rows_def due_def)
  have d: "sample_rows ! 1 \<in> set (reminders ?S) \<and> due 7 (sample_rows ! 1) \<and>
      send_fails chan_second_fails (sample_rows ! 1) \<noteq> None \<and> (7::nat) \<le> 8"
    unfolding S by (simp add: sample_started)
       (simp add: sample_rows_def due_def chan_second_fails_def)
  from t4 d have f: "sample_rows ! 1 \<in> set (get_pending_reminders 8 (reminders ?S'))"
    and g: "\<forall>c'. query_fails c' = None \<longrightarrow>
         msg_of (sample_rows ! 1) \<in> set (drop (length (attempted ?S'))
                            (attempted (check_reminders c' 8 ?S')))"
    by blast+
  from g chan_ok_query have "msg_of (sample_rows ! 1) \<in> set (drop (length (attempted ?S'))
                            (attempted (check_reminders chan_ok 8 ?S')))"
    by blast
  then have i: "msg_of (sample_rows ! 1) \<in> set (drop 2 (attempted (check_reminders chan_ok 8 ?S')))"
    unfolding a by (simp add: numeral_2_eq_2)
  from h1 h3 a b c d f chan_ok_query i show ?thesis by blast
qed


section \<open>The confirmation gate at work\<close>

lemma say_simps:
  "pending_confirmations (say u a s) = pending_confirmations s"
  "host (say u a s) = host s"
  "dispatched (say u a s) = dispatched s"
  "chat (say u a s) = chat s @ [(u, a)]"
  by (simp_all add: say_def)

lemma dispatch_simps:
  "pending_confirmations (snd (dispatch reg e i ps s)) = pending_confirmations s"
  "host (snd (dispatch reg e i ps s)) = snd (execute_command reg e i ps (host s))"
  "dispatched (snd (dispatch reg e i ps s)) = dispatched s @ [(i, ps)]"
  "chat (snd (dispatch reg e i ps s)) = chat s"
  "fst (dispatch reg e i ps s) = fst (execute_command reg e i ps (host s))"
  by (simp_all add: dispatch_def split: prod.splits)

lemma unknown_not_dangerous: "asc ''unknown'' \<notin> DANGEROUS_INTENTS"
  by (simp add: DANGEROUS_INTENTS_def asc_def)

lemma screenshot_not_dangerous: "asc ''screenshot'' \<notin> DANGEROUS_INTENTS"
  by (simp add: DANGEROUS_INTENTS_def asc_def)

lemma hcv_dangerous:
  assumes "intent_of d \<in> DANGEROUS_INTENTS"
  shows "handle_command_voice reg e u c (Some d) s =
     say u (EditText (msg_warning @ label_for reg (intent_of d) @ msg_params @
                      py_str e (JObj (get_params d)) @ msg_confirm_prompt))
       ((say u (EditText (msg_command @ c @ msg_parsing)) s)
          \<lparr>pending_confirmations := (pending_confirmations s)(u \<mapsto> d)\<rparr>)"
proof -
  from assms unknown_not_dangerous have "intent_of d \<noteq> asc ''unknown''" by auto
  with assms show ?thesis
    by (simp add: handle_command_voice_def Let_def label_for_def say_simps)
qed

lemma hcv_effect:
  "(\<exists>d. parsed = Some d \<and> intent_of d \<in> DANGEROUS_INTENTS \<and>
      pending_confirmations (handle_command_voice reg e u c parsed s) =
        (pending_confirmations s)(u \<mapsto> d) \<and>
      dispatched (handle_command_voice reg e u c parsed s) = dispatched s) \<or>
   ((\<forall>d. parsed = Some d \<longrightarrow> intent_of d \<notin> DANGEROUS_INTENTS) \<and>
    pending_confirmations (handle_command_voice reg e u c parsed s) = pending_confirmations s \<and>
    (dispatched (handle_command_voice reg e u c parsed s) = dispatched s \<or>
     (\<exists>d. parsed = Some d \<and>
        dispatched (handle_command_voice reg e u c parsed s) =
          dispatched s @ [(intent_of d, get_params d)])))"
proof (cases parsed)
  case None
  then show ?thesis by (simp add: handle_command_voice_def Let_def say_simps)
next
  case (Some d)
  show ?thesis
  proof (cases "intent_of d \<in> DANGEROUS_INTENTS")
    case True
    then show ?thesis using Some by (simp add: hcv_dangerous say_simps)
  next
    case False
    obtain r s2 where ds: "dispatch reg e (intent_of d) (get_params d)
        (say u (EditText (msg_command @ c @ msg_parsing)) s) = (r, s2)"
      by (cases "dispatch reg e (intent_of d) (get_params d)
        (say u (EditText (msg_command @ c @ msg_parsing)) s)") auto
    from dispatch_simps(1,3) [of reg e "intent_of d" "get_params d"
        "say u (EditText (msg_command @ c @ msg_parsing)) s"] ds
    have s2: "pending_confirmations s2 = pending_confirmations s"
      "dispatched s2 = dispatched s @ [(intent_of d, get_params d)]"
      by (simp_all add: say_simps)
    show ?thesis using Some False ds s2
      by (auto simp: handle_command_voice_def Let_def say_simps
          split: prod.splits os_result.splits sum.splits)
  qed
qed

lemma ht_reply:
  assumes "pending_confirmations s u = Some d" "is_authorized tid u"
  shows "handle_text reg e tid (Some u) msg s =
     (if is_affirmative e msg
      then (case dispatch reg e (intent_of d) (get_params d)
                   (s\<lparr>pending_confirmations := (pending_confirmations s)(u := None)\<rparr>) of
              (Inr res, s2) \<Rightarrow> say u (Answer (mark_ok @ res)) s2
            | (Inl x, s2) \<Rightarrow> s2)
      else say u (Answer msg_cancelled)
             (s\<lparr>pending_confirmations := (pending_confirmations s)(u := None)\<rparr>))"
  using assms by (simp add: handle_text_def Let_def is_affirmative_def)

lemma dispatch_Inr:
  "\<exists>res. dispatch reg e i ps s =
     (Inr res, s\<lparr>host := snd (execute_command reg e i ps (host s)),
                 dispatched := dispatched s @ [(i, ps)]\<rparr>) \<and>
     fst (execute_command reg e i ps (host s)) = Inr res"
proof -
  from execute_command_Inr [of reg e i ps "host s"]
  obtain out w' where "execute_command reg e i ps (host s) = (Inr out, w')" by blast
  then show ?thesis by (simp add: dispatch_def)
qed

lemma ht_affirmative:
  assumes "pending_confirmations s u = Some d" "is_authorized tid u" "is_affirmative e msg"
  shows "\<exists>res. fst (execute_command reg e (intent_of d) (get_params d) (host s)) = Inr res \<and>
     handle_text reg e tid (Some u) msg s =
       s\<lparr>pending_confirmations := (pending_confirmations s)(u := None),
         host := snd (execute_command reg e (intent_of d) (get_params d) (host s)),
         dispatched := dispatched s @ [(intent_of d, get_params d)],
         chat := chat s @ [(u, Answer (mark_ok @ res))]\<rparr>"
proof -
  let ?s1 = "s\<lparr>pending_confirmations := (pending_confirmations s)(u := None)\<rparr>"
  from dispatch_Inr [of reg e "intent_of d" "get_params d" ?s1]
  obtain res where r: "dispatch reg e (intent_of d) (get_params d) ?s1 =
     (Inr res, ?s1\<lparr>host := snd (execute_command reg e (intent_of d) (get_params d) (host ?s1)),
                 dispatched := dispatched ?s1 @ [(intent_of d, get_params d)]\<rparr>)"
    and f: "fst (execute_command reg e (intent_of d) (get_params d) (host ?s1)) = Inr res"
    by blast
  have "handle_text reg e tid (Some u) msg s =
       s\<lparr>pending_confirmations := (pending_confirmations s)(u := None),
         host := snd (execute_command reg e (intent_of d) (get_params d) (host s)),
         dispatched := dispatched s @ [(intent_of d, get_params d)],
         chat := chat s @ [(u, Answer (mark_ok @ res))]\<rparr>"
    using assms(3) r by (simp add: ht_reply [OF assms(1,2)] say_def)
  with f show ?thesis by auto
qed

lemma ht_other:
  assumes "pending_confirmations s u = Some d" "is_authorized tid u" "\<not> is_affirmative e msg"
  shows "handle_text reg e tid (Some u) msg s =
       s\<lparr>pending_confirmations := (pending_confirmations s)(u := None),
         chat := chat s @ [(u, Answer msg_cancelled)]\<rparr>"
  using assms(3) by (simp add: ht_reply [OF assms(1,2)] say_def)

lemma ht_ignored:
  assumes "\<forall>u. from_user = Some u \<longrightarrow> \<not> is_authorized tid u \<or> pending_confirmations s u = None"
  shows "handle_text reg e tid from_user msg s = s"
  using assms by (auto simp: handle_text_def Let_def split: option.splits)

lemma shutdown_dangerous: "intent_of shutdown_300 \<in> DANGEROUS_INTENTS"
  by (simp add: shutdown_300_def DANGEROUS_INTENTS_def)

lemma restart_dangerous: "intent_of restart_now \<in> DANGEROUS_INTENTS"
  by (simp add: restart_now_def DANGEROUS_INTENTS_def asc_def)

lemma shutdown_300_parts:
  "intent_of shutdown_300 = asc ''shutdown''"
  "get_params shutdown_300 = [(asc ''delay_seconds'', JInt 300)]"
  by (simp_all add: shutdown_300_def get_params_def)

lemma authorized_7: "is_authorized 7 7"
  by (simp add: is_authorized_def)

lemma env_ok_lower: "str_lower env_ok = sample_lower"
  by (simp add: env_ok_def)

lemma da_affirmative: "is_affirmative env_ok [1044, 1072]"
  by (simp add: is_affirmative_def env_ok_lower py_strip_def sample_lower_def sample_lower_cp_def
      is_space_def AFFIRMATIVE_def word_da_def)

lemma yes_affirmative: "is_affirmative env_ok (asc ''Yes'')"
  by (simp add: is_affirmative_def env_ok_lower py_strip_def sample_lower_def sample_lower_cp_def
      is_space_def AFFIRMATIVE_def asc_def)

lemma net_not_affirmative: "\<not> is_affirmative env_ok [1085, 1077, 1090]"
  by (simp add: is_affirmative_def env_ok_lower py_strip_def sample_lower_def sample_lower_cp_def
      is_space_def AFFIRMATIVE_def asc_def word_da_def word_ok_cyr_def word_podtverzhdayu_def
      word_davay_def)

lemma padded_yes_affirmative: "is_affirmative env_ok padded_yes"
  by (simp add: padded_yes_def is_affirmative_def env_ok_lower py_strip_def sample_lower_def
      sample_lower_cp_def is_space_def AFFIRMATIVE_def asc_def)

lemma AFFIRMATIVE_lower: "map sample_lower AFFIRMATIVE = AFFIRMATIVE"
  by (simp add: AFFIRMATIVE_def sample_lower_def sample_lower_cp_def asc_def word_da_def
      word_ok_cyr_def word_podtverzhdayu_def word_davay_def)

lemma padded_yes_not_equal: "\<not> equals_ignoring_case env_ok padded_yes AFFIRMATIVE"
  by (simp add: equals_ignoring_case_def env_ok_lower AFFIRMATIVE_lower del: set_map)
     (simp add: padded_yes_def sample_lower_def sample_lower_cp_def AFFIRMATIVE_def asc_def
      word_da_def word_ok_cyr_def word_podtverzhdayu_def word_davay_def)

lemma gate_waiting_parts:
  "pending_confirmations gate_waiting 7 = Some shutdown_300"
  "host gate_waiting = []" "chat gate_waiting = []" "dispatched gate_waiting = []"
  by (simp_all add: gate_waiting_def initial_state_def)

lemma shutdown_300_runs:
  "execute_command (COMMAND_REGISTRY 1) env_ok (asc ''shutdown'')
     [(asc ''delay_seconds'', JInt 300)] [] =
   (Inr (msg_shutdown_pre @ asc ''300'' @ msg_shutdown_post),
    [Run [asc ''shutdown'', asc ''/s'', asc ''/t'', asc ''300'']])"
  by (simp add: execute_command_def base_registry_def asc_def cmd_shutdown_def dict_get_def
      os_then_def os_do_def env_ok_def show_int_def show_nat.simps)

lemma run_snoc:
  "run reg e tid s (evs @ [ev]) = step reg e tid (run reg e tid s evs) ev"
  by (simp add: run_def)

lemma run_take_Suc:
  assumes "n < length evs"
  shows "run reg e tid s (take (Suc n) evs) = step reg e tid (run reg e tid s (take n evs)) (evs ! n)"
  using assms by (simp add: take_Suc_conv_app_nth run_snoc)

lemma awaiting_snoc:
  assumes "awaiting tid evs u d" "\<not> is_text_from u ev" "\<not> is_dangerous_request u ev"
  shows "awaiting tid (evs @ [ev]) u d"
proof -
  from assms(1) obtain m c where a: "is_authorized tid u" "intent_of d \<in> DANGEROUS_INTENTS"
    and m: "m < length evs" "evs ! m = VoiceCommand u c (Some d)"
    and q: "\<forall>j. m < j \<and> j < length evs \<longrightarrow>
        \<not> is_text_from u (evs ! j) \<and> \<not> is_dangerous_request u (evs ! j)"
    unfolding awaiting_def by blast
  have q': "\<not> is_text_from u ((evs @ [ev]) ! j) \<and> \<not> is_dangerous_request u ((evs @ [ev]) ! j)"
    if "m < j \<and> j < length (evs @ [ev])" for j
  proof (cases "j < length evs")
    case True
    with that q show ?thesis by (simp add: nth_append)
  next
    case False
    with that have "j = length evs" by simp
    with assms(2,3) show ?thesis by simp
  qed
  from m have "m < length (evs @ [ev]) \<and> (evs @ [ev]) ! m = VoiceCommand u c (Some d)"
    by (simp add: nth_append)
  with a q' show ?thesis unfolding awaiting_def by blast
qed

lemma awaiting_last:
  assumes "is_authorized tid u" "intent_of d \<in> DANGEROUS_INTENTS"
  shows "awaiting tid (evs @ [VoiceCommand u c (Some d)]) u d"
proof -
  have "length evs < length (evs @ [VoiceCommand u c (Some d)]) \<and>
      (evs @ [VoiceCommand u c (Some d)]) ! length evs = VoiceCommand u c (Some d) \<and>
      (\<forall>j. length evs < j \<and> j < length (evs @ [VoiceCommand u c (Some d)]) \<longrightarrow>
         \<not> is_text_from u ((evs @ [VoiceCommand u c (Some d)]) ! j) \<and>
         \<not> is_dangerous_request u ((evs @ [VoiceCommand u c (Some d)]) ! j))"
    by auto
  with assms show ?thesis unfolding awaiting_def by blast
qed

lemma gate_inv_step:
  assumes "gate_inv tid evs s"
  shows "gate_inv tid (evs @ [ev]) (step reg e tid s ev)"
  unfolding gate_inv_def
proof (intro allI impI)
  fix u' d'
  assume p: "pending_confirmations (step reg e tid s ev) u' = Some d'"
  note inv = assms [unfolded gate_inv_def, rule_format]
  show "awaiting tid (evs @ [ev]) u' d'"
  proof (cases ev)
    case (VoiceCommand u c parsed)
    have nt: "\<not> is_text_from u' ev" using VoiceCommand by (simp add: is_text_from_def)
    show ?thesis
    proof (cases "is_authorized tid u")
      case False
      with p VoiceCommand have old: "awaiting tid evs u' d'" using inv by simp
      then have "is_authorized tid u'" by (simp add: awaiting_def)
      with False have "u' \<noteq> u" by auto
      then have "\<not> is_dangerous_request u' ev"
        using VoiceCommand by (simp add: is_dangerous_request_def)
      from awaiting_snoc [OF old nt this] show ?thesis .
    next
      case True
      let ?s' = "handle_command_voice reg e u c parsed s"
      have st: "step reg e tid s ev = ?s'" using VoiceCommand True by simp
      from hcv_effect [of parsed reg e u c s] consider
        (new) d where "parsed = Some d" "intent_of d \<in> DANGEROUS_INTENTS"
          "pending_confirmations ?s' = (pending_confirmations s)(u \<mapsto> d)"
        | (same) "\<forall>d. parsed = Some d \<longrightarrow> intent_of d \<notin> DANGEROUS_INTENTS"
          "pending_confirmations ?s' = pending_confirmations s"
        by blast
      then show ?thesis
      proof cases
        case new
        show ?thesis
        proof (cases "u' = u")
          case True
          with new(3) p st have "d' = d" by simp
          with \<open>u' = u\<close> new(1,2) VoiceCommand \<open>is_authorized tid u\<close> show ?thesis
            by (simp add: awaiting_last)
        next
          case False
          with new(3) p st have old: "awaiting tid evs u' d'" using inv by simp
          from False have "\<not> is_dangerous_request u' ev"
            using VoiceCommand by (simp add: is_dangerous_request_def)
          from awaiting_snoc [OF old nt this] show ?thesis .
        qed
      next
        case same
        with p st have old: "awaiting tid evs u' d'" using inv by simp
        from same(1) have "\<not> is_dangerous_request u' ev"
          using VoiceCommand by (auto simp: is_dangerous_request_def)
        from awaiting_snoc [OF old nt this] show ?thesis .
      qed
    qed
  next
    case (TextMessage from_user msg)
    have nd: "\<not> is_dangerous_request u' ev"
      using TextMessage by (simp add: is_dangerous_request_def)
    have st: "step reg e tid s ev = handle_text reg e tid from_user msg s"
      using TextMessage by simp
    show ?thesis
    proof (cases "\<exists>u d. from_user = Some u \<and> is_authorized tid u \<and>
        pending_confirmations s u = Some d")
      case True
      then obtain u d where u: "from_user = Some u" "is_authorized tid u"
        "pending_confirmations s u = Some d" by blast
      have "pending_confirmations (handle_text reg e tid (Some u) msg s) =
          (pending_confirmations s)(u := None)"
      proof (cases "is_affirmative e msg")
        case True
        from ht_affirmative [OF u(3,2) True, of reg] show ?thesis by auto
      next
        case False
        from ht_other [OF u(3,2) False, of reg] show ?thesis by simp
      qed
      with p st u(1) have ne: "u' \<noteq> u" and old: "pending_confirmations s u' = Some d'"
        by (auto split: if_splits)
      from ne have nt: "\<not> is_text_from u' ev"
        using TextMessage u(1) by (simp add: is_text_from_def)
      from awaiting_snoc [OF inv [OF old] nt nd] show ?thesis .
    next
      case False
      then have ig: "\<forall>u. from_user = Some u \<longrightarrow>
          \<not> is_authorized tid u \<or> pending_confirmations s u = None"
        by auto
      from ht_ignored [OF ig] p st have old: "pending_confirmations s u' = Some d'" by simp
      from inv [OF old] have "is_authorized tid u'" by (simp add: awaiting_def)
      with ig old have "from_user \<noteq> Some u'" by auto
      then have nt: "\<not> is_text_from u' ev"
        using TextMessage by (simp add: is_text_from_def)
      from awaiting_snoc [OF inv [OF old] nt nd] show ?thesis .
    qed
  qed
qed

lemma gate_inv_run: "gate_inv tid evs (run reg e tid initial_state evs)"
proof (induction evs rule: rev_induct)
  case Nil
  show ?case by (simp add: gate_inv_def run_def initial_state_def)
next
  case (snoc ev evs)
  from gate_inv_step [OF snoc.IH, of ev reg e] show ?case by (simp add: run_snoc)
qed

lemma step_effect:
  "\<exists>ys. dispatched (step reg e tid s ev) = dispatched s @ ys \<and>
     (\<forall>x \<in> set ys. fst x \<in> DANGEROUS_INTENTS \<longrightarrow>
        ys = [x] \<and>
        (\<exists>u msg d. ev = TextMessage (Some u) msg \<and> is_affirmative e msg \<and>
           pending_confirmations s u = Some d \<and> x = (intent_of d, get_params d)))"
proof (cases ev)
  case (VoiceCommand u c parsed)
  show ?thesis
  proof (cases "is_authorized tid u")
    case False
    with VoiceCommand show ?thesis by (intro exI [of _ "[]"]) simp
  next
    case True
    let ?s' = "handle_command_voice reg e u c parsed s"
    have st: "step reg e tid s ev = ?s'" using VoiceCommand True by simp
    from hcv_effect [of parsed reg e u c s] consider
      (none) "dispatched ?s' = dispatched s"
      | (call) d where "parsed = Some d" "intent_of d \<notin> DANGEROUS_INTENTS"
          "dispatched ?s' = dispatched s @ [(intent_of d, get_params d)]"
      by blast
    then show ?thesis
    proof cases
      case none
      with st show ?thesis by (intro exI [of _ "[]"]) simp
    next
      case call
      with st show ?thesis by (intro exI [of _ "[(intent_of d, get_params d)]"]) simp
    qed
  qed
next
  case (TextMessage from_user msg)
  have st: "step reg e tid s ev = handle_text reg e tid from_user msg s"
    using TextMessage by simp
  show ?thesis
  proof (cases "\<exists>u d. from_user = Some u \<and> is_authorized tid u \<and>
      pending_confirmations s u = Some d")
    case True
    then obtain u d where u: "from_user = Some u" "is_authorized tid u"
      "pending_confirmations s u = Some d" by blast
    show ?thesis
    proof (cases "is_affirmative e msg")
      case True
      from ht_affirmative [OF u(3,2) True, of reg]
      have "dispatched (handle_text reg e tid (Some u) msg s) =
          dispatched s @ [(intent_of d, get_params d)]" by auto
      with st u True TextMessage show ?thesis
        by (intro exI [of _ "[(intent_of d, get_params d)]"]) auto
    next
      case False
      from ht_other [OF u(3,2) False, of reg]
      have "dispatched (handle_text reg e tid (Some u) msg s) = dispatched s" by simp
      with st u show ?thesis by (intro exI [of _ "[]"]) simp
    qed
  next
    case False
    then have ig: "\<forall>u. from_user = Some u \<longrightarrow>
        \<not> is_authorized tid u \<or> pending_confirmations s u = None"
      by auto
    from ht_ignored [OF ig] st show ?thesis by (intro exI [of _ "[]"]) simp
  qed
qed

lemma step_calls_char:
  assumes "n < length evs"
  shows "dispatched (run reg e tid initial_state (take (Suc n) evs)) =
           dispatched (run reg e tid initial_state (take n evs)) @ step_calls reg e tid evs n \<and>
         (\<forall>x \<in> set (step_calls reg e tid evs n). fst x \<in> DANGEROUS_INTENTS \<longrightarrow>
            step_calls reg e tid evs n = [x] \<and> confirmed_at e tid evs n x)"
proof -
  let ?s = "run reg e tid initial_state (take n evs)"
  from step_effect [of reg e tid ?s "evs ! n"]
  obtain ys where ys: "dispatched (step reg e tid ?s (evs ! n)) = dispatched ?s @ ys"
    and dg: "\<forall>x \<in> set ys. fst x \<in> DANGEROUS_INTENTS \<longrightarrow>
        ys = [x] \<and>
        (\<exists>u msg d. evs ! n = TextMessage (Some u) msg \<and> is_affirmative e msg \<and>
           pending_confirmations ?s u = Some d \<and> x = (intent_of d, get_params d))"
    by blast
  have sc: "step_calls reg e tid evs n = ys"
    by (simp add: step_calls_def run_take_Suc [OF assms] ys)
  have a: "dispatched (run reg e tid initial_state (take (Suc n) evs)) =
           dispatched ?s @ step_calls reg e tid evs n"
    by (simp add: sc run_take_Suc [OF assms] ys)
  have b: "step_calls reg e tid evs n = [x] \<and> confirmed_at e tid evs n x"
    if "x \<in> set (step_calls reg e tid evs n)" "fst x \<in> DANGEROUS_INTENTS" for x
  proof -
    from that dg sc obtain u msg d where one: "ys = [x]"
      and ev: "evs ! n = TextMessage (Some u) msg" "is_affirmative e msg"
      and pd: "pending_confirmations ?s u = Some d" and x: "x = (intent_of d, get_params d)"
      by blast
    from gate_inv_run [of tid "take n evs" reg e] pd
    have "awaiting tid (take n evs) u d" by (simp add: gate_inv_def)
    with assms ev x have "confirmed_at e tid evs n x"
      unfolding confirmed_at_def by blast
    with one sc show ?thesis by simp
  qed
  from a b show ?thesis by blast
qed

lemma macro_steps_not_dangerous:
  "\<forall>m \<in> snd ` set MACRO_REGISTRY. \<forall>st \<in> set (macro_steps m).
     intent_of st \<notin> DANGEROUS_INTENTS"
  by (simp add: MACRO_REGISTRY_def DANGEROUS_INTENTS_def asc_def)

lemma dispatched_upto:
  "k \<le> length evs \<Longrightarrow>
   dispatched (run reg e tid initial_state (take k evs)) =
     concat (map (step_calls reg e tid evs) [0..<k])"
proof (induction k)
  case 0
  show ?case by (simp add: run_def initial_state_def)
next
  case (Suc k)
  then have k: "k < length evs" by simp
  from step_calls_char [OF k, of reg e tid] Suc.IH k show ?case by simp
qed

text \<open>
  C1. When \<open>handle_command_voice\<close> resolves a dangerous intent, the dispatcher is not
  called and the host is not touched: the descriptor is stored as the pending
  confirmation of the operator who sent it, and that is all. In every run of the gate
  from its initial state the dispatcher's log is made of the calls of the single
  messages, in order, and a message during which the dispatcher is called with a
  dangerous intent is such that: this call is the only one made for it; the message is
  a plain text of an authorised operator that \<open>handle_text\<close> takes as a yes; before it,
  that same operator asked by voice for the descriptor that is called, with its
  parameters; and between the request and the yes the operator sent no other text and
  asked for no other dangerous action. So every dangerous call has a yes of its own,
  sent after the request it answers. The calls that \<open>execute_macro\<close> makes for the steps
  of a macro are not in that log; no step of a macro of \<open>MACRO_REGISTRY\<close> has a dangerous
  intent.
\<close>

theorem dangerous_needs_confirmation:
  "(intent_of d \<in> DANGEROUS_INTENTS \<longrightarrow>
      dispatched (handle_command_voice reg e u c (Some d) s) = dispatched s \<and>
      host (handle_command_voice reg e u c (Some d) s) = host s \<and>
      pending_confirmations (handle_command_voice reg e u c (Some d) s) =
        (pending_confirmations s)(u \<mapsto> d)) \<and>
   dispatched (run reg e tid initial_state evs) =
     concat (map (step_calls reg e tid evs) [0..<length evs]) \<and>
   (\<forall>n<length evs.
      dispatched (run reg e tid initial_state (take (Suc n) evs)) =
        dispatched (run reg e tid initial_state (take n evs)) @ step_calls reg e tid evs n \<and>
      (\<forall>x \<in> set (step_calls reg e tid evs n). fst x \<in> DANGEROUS_INTENTS \<longrightarrow>
         step_calls reg e tid evs n = [x] \<and> confirmed_at e tid evs n x)) \<and>
   (\<forall>m \<in> snd ` set MACRO_REGISTRY. \<forall>st \<in> set (macro_steps m).
      intent_of st \<notin> DANGEROUS_INTENTS)"
proof (intro conjI impI allI)
  assume "intent_of d \<in> DANGEROUS_INTENTS"
  then show "dispatched (handle_command_voice reg e u c (Some d) s) = dispatched s"
    and "host (handle_command_voice reg e u c (Some d) s) = host s"
    and "pending_confirmations (handle_command_voice reg e u c (Some d) s) =
        (pending_confirmations s)(u \<mapsto> d)"
    by (simp_all add: hcv_dangerous say_simps)
next
  from dispatched_upto [of "length evs" evs reg e tid]
  show "dispatched (run reg e tid initial_state evs) =
     concat (map (step_calls reg e tid evs) [0..<length evs])" by simp
next
  fix n
  assume n: "n < length evs"
  from step_calls_char [OF n, of reg e tid]
  show "dispatched (run reg e tid initial_state (take (Suc n) evs)) =
        dispatched (run reg e tid initial_state (take n evs)) @ step_calls reg e tid evs n"
    and "\<forall>x \<in> set (step_calls reg e tid evs n). fst x \<in> DANGEROUS_INTENTS \<longrightarrow>
         step_calls reg e tid evs n = [x] \<and> confirmed_at e tid evs n x"
    by blast+
next
  show "\<forall>m \<in> snd ` set MACRO_REGISTRY. \<forall>st \<in> set (macro_steps m).
      intent_of st \<notin> DANGEROUS_INTENTS"
    by (rule macro_steps_not_dangerous)
qed

theorem dangerous_needs_confirmation_witness:
  "intent_of shutdown_300 \<in> DANGEROUS_INTENTS \<and>
   dispatched (handle_command_voice (COMMAND_REGISTRY 1) env_ok 7 (asc ''shutdown in 5 minutes'')
     (Some shutdown_300) initial_state) = [] \<and>
   host (handle_command_voice (COMMAND_REGISTRY 1) env_ok 7 (asc ''shutdown in 5 minutes'')
     (Some shutdown_300) initial_state) = [] \<and>
   pending_confirmations (handle_command_voice (COMMAND_REGISTRY 1) env_ok 7
     (asc ''shutdown in 5 minutes'') (Some shutdown_300) initial_state) 7 = Some shutdown_300 \<and>
   Suc 0 < length sample_dialogue \<and>
   step_calls (COMMAND_REGISTRY 1) env_ok 7 sample_dialogue 0 = [] \<and>
   step_calls (COMMAND_REGISTRY 1) env_ok 7 sample_dialogue (Suc 0) =
     [(asc ''shutdown'', [(asc ''delay_seconds'', JInt 300)])] \<and>
   dispatched (run (COMMAND_REGISTRY 1) env_ok 7 initial_state sample_dialogue) =
     [(asc ''shutdown'', [(asc ''delay_seconds'', JInt 300)])] \<and>
   confirmed_at env_ok 7 sample_dialogue (Suc 0)
     (asc ''shutdown'', [(asc ''delay_seconds'', JInt 300)])"
proof -
  let ?reg = "COMMAND_REGISTRY 1"
  let ?c = "asc ''shutdown in 5 minutes''"
  let ?s1 = "handle_command_voice ?reg env_ok 7 ?c (Some shutdown_300) initial_state"
  let ?x = "(asc ''shutdown'', [(asc ''delay_seconds'', JInt 300)])"
  note t = dangerous_needs_confirmation [where d = shutdown_300 and reg = ?reg and e = env_ok
      and u = 7 and c = ?c and s = initial_state and tid = 7 and evs = sample_dialogue]
  from t shutdown_dangerous have a: "dispatched ?s1 = dispatched initial_state"
    and b: "host ?s1 = host initial_state"
    and c: "pending_confirmations ?s1 = (pending_confirmations initial_state)(7 \<mapsto> shutdown_300)"
    by blast+
  have a': "dispatched ?s1 = []" using a by (simp add: initial_state_def)
  have b': "host ?s1 = []" using b by (simp add: initial_state_def)
  have c': "pending_confirmations ?s1 7 = Some shutdown_300" using c by simp
  have len: "Suc 0 < length sample_dialogue" by (simp add: sample_dialogue_def)
  have r0: "run reg env_ok 7 initial_state (take 0 sample_dialogue) = initial_state" for reg
    by (simp add: run_def)
  have r1: "run reg env_ok 7 initial_state (take (Suc 0) sample_dialogue) =
      handle_command_voice reg env_ok 7 ?c (Some shutdown_300) initial_state" for reg
    by (simp add: run_def sample_dialogue_def authorized_7)
  have r2: "run reg env_ok 7 initial_state (take (Suc (Suc 0)) sample_dialogue) =
      handle_text reg env_ok 7 (Some 7) [1044, 1072]
        (handle_command_voice reg env_ok 7 ?c (Some shutdown_300) initial_state)" for reg
    by (simp add: run_def sample_dialogue_def authorized_7)
  have r: "run reg env_ok 7 initial_state sample_dialogue =
      handle_text reg env_ok 7 (Some 7) [1044, 1072]
        (handle_command_voice reg env_ok 7 ?c (Some shutdown_300) initial_state)" for reg
    by (simp add: run_def sample_dialogue_def authorized_7)
  from ht_affirmative [OF c' authorized_7 da_affirmative, where reg = ?reg]
  obtain res where h: "handle_text ?reg env_ok 7 (Some 7) [1044, 1072] ?s1 =
       ?s1\<lparr>pending_confirmations := (pending_confirmations ?s1)(7 := None),
         host := snd (execute_command ?reg env_ok (intent_of shutdown_300)
                        (get_params shutdown_300) (host ?s1)),
         dispatched := dispatched ?s1 @ [(intent_of shutdown_300, get_params shutdown_300)],
         chat := chat ?s1 @ [(7, Answer (mark_ok @ res))]\<rparr>"
    by blast
  have d: "dispatched (run ?reg env_ok 7 initial_state sample_dialogue) = [?x]"
    unfolding r h by (simp add: a' shutdown_300_parts del: One_nat_def)
  have sc0: "step_calls ?reg env_ok 7 sample_dialogue 0 = []"
    unfolding step_calls_def r0 r1 by (simp add: a' del: One_nat_def)
  have sc1: "step_calls ?reg env_ok 7 sample_dialogue (Suc 0) = [?x]"
    unfolding step_calls_def r1 r2 h by (simp add: a' shutdown_300_parts del: One_nat_def)
  from t len have "\<forall>x \<in> set (step_calls ?reg env_ok 7 sample_dialogue (Suc 0)).
      fst x \<in> DANGEROUS_INTENTS \<longrightarrow>
      step_calls ?reg env_ok 7 sample_dialogue (Suc 0) = [x] \<and>
      confirmed_at env_ok 7 sample_dialogue (Suc 0) x"
    by blast
  with sc1 shutdown_dangerous have f: "confirmed_at env_ok 7 sample_dialogue (Suc 0) ?x"
    by (simp add: shutdown_300_parts)
  from shutdown_dangerous a' b' c' len sc0 sc1 d f show ?thesis by blast
qed

text \<open>
  C2. The pending confirmations are a map from operators, so an operator has at most
  one. When a dangerous intent \<open>B\<close> is resolved for an operator, the pending entry of that
  operator is \<open>B\<close> afterwards and the entries of the others are as before; whatever \<open>A\<close>
  was pending leaves no trace, the state being the one reached had nothing been
  pending; the two messages sent name \<open>B\<close> only; nothing is dispatched.
\<close>

theorem second_dangerous_replaces:
  assumes "intent_of B \<in> DANGEROUS_INTENTS"
  shows "pending_confirmations (handle_command_voice reg e u c (Some B) s) =
           (pending_confirmations s)(u \<mapsto> B) \<and>
         handle_command_voice reg e u c (Some B)
             (s\<lparr>pending_confirmations := (pending_confirmations s)(u \<mapsto> A)\<rparr>) =
           handle_command_voice reg e u c (Some B)
             (s\<lparr>pending_confirmations := (pending_confirmations s)(u := None)\<rparr>) \<and>
         chat (handle_command_voice reg e u c (Some B) s) =
           chat s @
           [(u, EditText (msg_command @ c @ msg_parsing)),
            (u, EditText (msg_warning @ label_for reg (intent_of B) @ msg_params @
                          py_str e (JObj (get_params B)) @ msg_confirm_prompt))] \<and>
         dispatched (handle_command_voice reg e u c (Some B) s) = dispatched s \<and>
         host (handle_command_voice reg e u c (Some B) s) = host s \<and>
         card {d. pending_confirmations s u = Some d} \<le> 1"
proof -
  have a: "card {d. pending_confirmations s u = Some d} \<le> 1"
  proof (cases "pending_confirmations s u")
    case None
    then show ?thesis by simp
  next
    case (Some d)
    then have "{d. pending_confirmations s u = Some d} = {d}" by auto
    then show ?thesis by simp
  qed
  show ?thesis
    using a by (simp add: hcv_dangerous [OF assms] say_def)
qed

theorem second_dangerous_replaces_witness:
  "intent_of restart_now \<in> DANGEROUS_INTENTS \<and>
   pending_confirmations gate_waiting 7 = Some shutdown_300 \<and>
   pending_confirmations (handle_command_voice (COMMAND_REGISTRY 1) env_ok 7 (asc ''restart'')
     (Some restart_now) gate_waiting) 7 = Some restart_now \<and>
   chat (handle_command_voice (COMMAND_REGISTRY 1) env_ok 7 (asc ''restart'')
     (Some restart_now) gate_waiting) =
     [(7, EditText (msg_command @ asc ''restart'' @ msg_parsing)),
      (7, EditText (msg_warning @ label_restart @ msg_params @ msg_confirm_prompt))] \<and>
   dispatched (handle_command_voice (COMMAND_REGISTRY 1) env_ok 7 (asc ''restart'')
     (Some restart_now) gate_waiting) = []"
proof -
  note t = second_dangerous_replaces [OF restart_dangerous, of "COMMAND_REGISTRY 1" env_ok 7
      "asc ''restart''" gate_waiting]
  have l: "label_for (COMMAND_REGISTRY 1) (intent_of restart_now) = label_restart"
    by (simp add: label_for_def restart_now_def base_registry_def asc_def)
  from t have a: "pending_confirmations (handle_command_voice (COMMAND_REGISTRY 1) env_ok 7
      (asc ''restart'') (Some restart_now) gate_waiting) 7 = Some restart_now"
    by (simp del: One_nat_def)
  from t have b: "chat (handle_command_voice (COMMAND_REGISTRY 1) env_ok 7 (asc ''restart'')
     (Some restart_now) gate_waiting) =
     [(7, EditText (msg_command @ asc ''restart'' @ msg_parsing)),
      (7, EditText (msg_warning @ label_restart @ msg_params @ msg_confirm_prompt))]"
    by (simp add: l gate_waiting_parts env_ok_def del: One_nat_def)
  from t have c: "dispatched (handle_command_voice (COMMAND_REGISTRY 1) env_ok 7 (asc ''restart'')
     (Some restart_now) gate_waiting) = []"
    by (simp add: gate_waiting_parts del: One_nat_def)
  from restart_dangerous gate_waiting_parts(1) a b c show ?thesis by blast
qed

text \<open>
  C3, as amended. When an authorised operator with a pending confirmation sends a text,
  the pending entry is removed. If the text, with the white space around it removed
  and then in lower case, is a word of the vocabulary, the stored descriptor is
  dispatched with its stored parameters and the outcome is answered; otherwise the
  answer is the cancellation message, nothing is dispatched and the host is not
  touched.
\<close>

theorem text_reply_settles_pending:
  assumes "pending_confirmations s u = Some d"
    and "is_authorized tid u"
  shows "pending_confirmations (handle_text reg e tid (Some u) msg s) =
           (pending_confirmations s)(u := None) \<and>
         (is_affirmative e msg \<longrightarrow>
            (\<exists>res. fst (execute_command reg e (intent_of d) (get_params d) (host s)) = Inr res \<and>
               chat (handle_text reg e tid (Some u) msg s) =
                 chat s @ [(u, Answer (mark_ok @ res))]) \<and>
            dispatched (handle_text reg e tid (Some u) msg s) =
              dispatched s @ [(intent_of d, get_params d)] \<and>
            host (handle_text reg e tid (Some u) msg s) =
              snd (execute_command reg e (intent_of d) (get_params d) (host s))) \<and>
         (\<not> is_affirmative e msg \<longrightarrow>
            chat (handle_text reg e tid (Some u) msg s) = chat s @ [(u, Answer msg_cancelled)] \<and>
            dispatched (handle_text reg e tid (Some u) msg s) = dispatched s \<and>
            host (handle_text reg e tid (Some u) msg s) = host s)"
proof (cases "is_affirmative e msg")
  case True
  from ht_affirmative [OF assms True, of reg]
  obtain res where
    f: "fst (execute_command reg e (intent_of d) (get_params d) (host s)) = Inr res"
    and h: "handle_text reg e tid (Some u) msg s =
       s\<lparr>pending_confirmations := (pending_confirmations s)(u := None),
         host := snd (execute_command reg e (intent_of d) (get_params d) (host s)),
         dispatched := dispatched s @ [(intent_of d, get_params d)],
         chat := chat s @ [(u, Answer (mark_ok @ res))]\<rparr>"
    by blast
  have "\<exists>res. fst (execute_command reg e (intent_of d) (get_params d) (host s)) = Inr res \<and>
               chat (handle_text reg e tid (Some u) msg s) =
                 chat s @ [(u, Answer (mark_ok @ res))]"
    using f h by (intro exI [of _ res]) simp
  with True h show ?thesis by simp
next
  case False
  with ht_other [OF assms False, of reg] show ?thesis by auto
qed

theorem text_reply_settles_pending_witness:
  "pending_confirmations gate_waiting 7 = Some shutdown_300 \<and>
   is_authorized 7 7 \<and>
   is_affirmative env_ok (asc ''Yes'') \<and>
   dispatched (handle_text (COMMAND_REGISTRY 1) env_ok 7 (Some 7) (asc ''Yes'') gate_waiting) =
     [(asc ''shutdown'', [(asc ''delay_seconds'', JInt 300)])] \<and>
   host (handle_text (COMMAND_REGISTRY 1) env_ok 7 (Some 7) (asc ''Yes'') gate_waiting) =
     [Run [asc ''shutdown'', asc ''/s'', asc ''/t'', asc ''300'']] \<and>
   pending_confirmations
     (handle_text (COMMAND_REGISTRY 1) env_ok 7 (Some 7) (asc ''Yes'') gate_waiting) 7 = None \<and>
   \<not> is_affirmative env_ok [1085, 1077, 1090] \<and>
   chat (handle_text (COMMAND_REGISTRY 1) env_ok 7 (Some 7) [1085, 1077, 1090] gate_waiting) =
     [(7, Answer msg_cancelled)] \<and>
   dispatched (handle_text (COMMAND_REGISTRY 1) env_ok 7 (Some 7) [1085, 1077, 1090] gate_waiting) =
     [] \<and>
   host (handle_text (COMMAND_REGISTRY 1) env_ok 7 (Some 7) [1085, 1077, 1090] gate_waiting) = [] \<and>
   pending_confirmations
     (handle_text (COMMAND_REGISTRY 1) env_ok 7 (Some 7) [1085, 1077, 1090] gate_waiting) 7 = None"
proof -
  let ?reg = "COMMAND_REGISTRY 1"
  note p = gate_waiting_parts(1)
  note y = text_reply_settles_pending [OF p authorized_7, where reg = ?reg and e = env_ok
      and msg = "asc ''Yes''"]
  note n = text_reply_settles_pending [OF p authorized_7, where reg = ?reg and e = env_ok
      and msg = "[1085, 1077, 1090]"]
  from y yes_affirmative have y1:
    "dispatched (handle_text ?reg env_ok 7 (Some 7) (asc ''Yes'') gate_waiting) =
       dispatched gate_waiting @ [(intent_of shutdown_300, get_params shutdown_300)]"
    and y2: "host (handle_text ?reg env_ok 7 (Some 7) (asc ''Yes'') gate_waiting) =
       snd (execute_command ?reg env_ok (intent_of shutdown_300) (get_params shutdown_300)
              (host gate_waiting))"
    and y3: "pending_confirmations (handle_text ?reg env_ok 7 (Some 7) (asc ''Yes'') gate_waiting) =
       (pending_confirmations gate_waiting)(7 := None)"
    by blast+
  from n net_not_affirmative have n1:
    "chat (handle_text ?reg env_ok 7 (Some 7) [1085, 1077, 1090] gate_waiting) =
       chat gate_waiting @ [(7, Answer msg_cancelled)]"
    and n2: "dispatched (handle_text ?reg env_ok 7 (Some 7) [1085, 1077, 1090] gate_waiting) =
       dispatched gate_waiting"
    and n3: "host (handle_text ?reg env_ok 7 (Some 7) [1085, 1077, 1090] gate_waiting) =
       host gate_waiting"
    and n4: "pending_confirmations
       (handle_text ?reg env_ok 7 (Some 7) [1085, 1077, 1090] gate_waiting) =
       (pending_confirmations gate_waiting)(7 := None)"
    by blast+
  have a: "dispatched (handle_text ?reg env_ok 7 (Some 7) (asc ''Yes'') gate_waiting) =
     [(asc ''shutdown'', [(asc ''delay_seconds'', JInt 300)])]"
    using y1 by (simp add: gate_waiting_parts shutdown_300_parts)
  have b: "host (handle_text ?reg env_ok 7 (Some 7) (asc ''Yes'') gate_waiting) =
     [Run [asc ''shutdown'', asc ''/s'', asc ''/t'', asc ''300'']]"
    using y2 unfolding gate_waiting_parts shutdown_300_parts shutdown_300_runs by simp
  have c: "pending_confirmations
     (handle_text ?reg env_ok 7 (Some 7) (asc ''Yes'') gate_waiting) 7 = None"
    using y3 by simp
  have d: "chat (handle_text ?reg env_ok 7 (Some 7) [1085, 1077, 1090] gate_waiting) =
     [(7, Answer msg_cancelled)]"
    using n1 by (simp add: gate_waiting_parts)
  have f: "dispatched (handle_text ?reg env_ok 7 (Some 7) [1085, 1077, 1090] gate_waiting) = []"
    using n2 by (simp add: gate_waiting_parts)
  have g: "host (handle_text ?reg env_ok 7 (Some 7) [1085, 1077, 1090] gate_waiting) = []"
    using n3 by (simp add: gate_waiting_parts)
  have h: "pending_confirmations
     (handle_text ?reg env_ok 7 (Some 7) [1085, 1077, 1090] gate_waiting) 7 = None"
    using n4 by simp
  from p authorized_7 yes_affirmative net_not_affirmative a b c d f g h
  show ?thesis by blast
qed

text \<open>
  C3 as stated fails on a text that differs from the vocabulary by more than letter
  case and is still taken as a yes: \<open>handle_text\<close> strips the text first, so a \<open>yes\<close> with
  a space in front executes the pending shutdown.
\<close>

theorem padded_yes_counterexample:
  "\<not> equals_ignoring_case env_ok padded_yes AFFIRMATIVE \<and>
   pending_confirmations gate_waiting 7 = Some shutdown_300 \<and>
   is_authorized 7 7 \<and>
   dispatched (handle_text (COMMAND_REGISTRY 1) env_ok 7 (Some 7) padded_yes gate_waiting) =
     [(asc ''shutdown'', [(asc ''delay_seconds'', JInt 300)])] \<and>
   host (handle_text (COMMAND_REGISTRY 1) env_ok 7 (Some 7) padded_yes gate_waiting) =
     [Run [asc ''shutdown'', asc ''/s'', asc ''/t'', asc ''300'']] \<and>
   chat (handle_text (COMMAND_REGISTRY 1) env_ok 7 (Some 7) padded_yes gate_waiting) =
     [(7, Answer (mark_ok @ msg_shutdown_pre @ asc ''300'' @ msg_shutdown_post))]"
proof -
  let ?reg = "COMMAND_REGISTRY 1"
  from ht_affirmative [OF gate_waiting_parts(1) authorized_7 padded_yes_affirmative,
      where reg = ?reg]
  obtain res where
    f: "fst (execute_command ?reg env_ok (intent_of shutdown_300) (get_params shutdown_300)
          (host gate_waiting)) = Inr res"
    and h: "handle_text ?reg env_ok 7 (Some 7) padded_yes gate_waiting =
       gate_waiting\<lparr>pending_confirmations := (pending_confirmations gate_waiting)(7 := None),
         host := snd (execute_command ?reg env_ok (intent_of shutdown_300)
                        (get_params shutdown_300) (host gate_waiting)),
         dispatched := dispatched gate_waiting @ [(intent_of shutdown_300, get_params shutdown_300)],
         chat := chat gate_waiting @ [(7, Answer (mark_ok @ res))]\<rparr>"
    by blast
  from f have res: "res = msg_shutdown_pre @ asc ''300'' @ msg_shutdown_post"
    unfolding gate_waiting_parts shutdown_300_parts shutdown_300_runs by simp
  show ?thesis
    unfolding h res gate_waiting_parts shutdown_300_parts shutdown_300_runs
    by (simp add: padded_yes_not_equal authorized_7)
qed

end
